theory Spec2Isabelle
  imports Complex_Main "HOL-Library.Word"
begin

section \<open>The phrase segmentation engine of \<open>recognisers.py\<close>\<close>

text \<open>
  A shallow embedding of \<open>Recognizer.record\<close>, \<open>Recognizer.adjust_for_ambient_noise\<close>
  and \<open>Recognizer.listen\<close>.

  Modelling decisions:
  \<^item> A Python number is modelled by the real number it denotes, and the floating-point
    arithmetic of Python is a parameter \<open>A\<close> of every function that computes with floats:
    \<open>fadd\<close>, \<open>fsub\<close>, \<open>fmul\<close> and \<open>fdiv\<close> are \<open>+\<close>, \<open>-\<close>, \<open>*\<close> and \<open>/\<close> with a float
    operand, \<open>to_float\<close> is the conversion of an \<open>int\<close> to a float (\<open>None\<close> where Python
    raises \<open>OverflowError\<close>) and \<open>fpow\<close> is \<open>**\<close> (\<open>None\<close> where it does not return a float:
    it raises \<open>ZeroDivisionError\<close> for the base zero and \<open>OverflowError\<close> otherwise; for a
    negative base and a fractional exponent Python goes on with a complex number, which is
    not modelled).
    Nothing is assumed of these operations unless a statement says so: what is proved holds
    for every arithmetic, rounded or not. Comparisons and \<open>math.ceil\<close> are exact on
    floats, so they are the comparisons and the ceiling of the reals. The operations are
    taken to return finite floats: infinities and NaN are not modelled.
  \<^item> \<open>source.stream\<close> is open, and it is the finite list of buffers that the successive
    calls \<open>source.stream.read(source.CHUNK)\<close> will return; once the list is exhausted
    every further read returns the empty buffer (end of stream), as a file does.
  \<^item> \<open>audioop.rms\<close> belongs to the Python standard library, not to this repository: it is
    a parameter \<open>rms\<close> of every function that calls it, from a fragment and a sample width
    to a natural number, and it is taken to return on every fragment.
  \<^item> A loop that need not end takes a bound on the number of its iterations and yields
    \<open>None\<close> when the bound is reached.
  \<^item> A call mutates \<open>self.energy_threshold\<close> and consumes \<open>source.stream\<close>: every
    operation returns its result (or the exception raised) together with the recognizer
    and the source as they are after the call.
\<close>

subsection \<open>Data model\<close>

type_synonym bytes = "8 word list"

datatype error =
  WaitTimeoutError | AssertionError | ZeroDivisionError | IndexError | OverflowError

record AudioSource =
  SAMPLE_RATE :: int
  SAMPLE_WIDTH :: int
  CHUNK :: int
  stream :: "bytes list"

record AudioData =
  frame_data :: bytes
  sample_rate :: int
  sample_width :: int

record Recognizer =
  energy_threshold :: real
  dynamic_energy_threshold :: bool
  dynamic_energy_adjustment_damping :: real
  dynamic_energy_ratio :: real
  pause_threshold :: real
  phrase_threshold :: real
  non_speaking_duration :: real

text \<open>The arithmetic of floats.\<close>

record arith =
  to_float :: "int \<Rightarrow> real option"
  fadd :: "real \<Rightarrow> real \<Rightarrow> real"
  fsub :: "real \<Rightarrow> real \<Rightarrow> real"
  fmul :: "real \<Rightarrow> real \<Rightarrow> real"
  fdiv :: "real \<Rightarrow> real \<Rightarrow> real"
  fpow :: "real \<Rightarrow> real \<Rightarrow> real option"

text \<open>\<open>Recognizer.__init__\<close>\<close>

definition Recognizer_init :: Recognizer where
  "Recognizer_init =
     \<lparr>energy_threshold = 600, dynamic_energy_threshold = False,
      dynamic_energy_adjustment_damping = 15 / 100, dynamic_energy_ratio = 2,
      pause_threshold = 5 / 10, phrase_threshold = 5 / 10, non_speaking_duration = 2 / 10\<rparr>"

text \<open>\<open>AudioData.__init__\<close> with its two assertions (\<open>sample_width % 1 == 0\<close> holds of
  every integer).\<close>

definition AudioData_init :: "bytes \<Rightarrow> int \<Rightarrow> int \<Rightarrow> error + AudioData" where
  "AudioData_init fd sr sw =
     (if \<not> sr > 0 then Inl AssertionError
      else if \<not> (sw mod 1 = 0 \<and> sw > 0) then Inl AssertionError
      else Inr \<lparr>frame_data = fd, sample_rate = sr, sample_width = sw\<rparr>)"

text \<open>\<open>source.stream.read(source.CHUNK)\<close>: the buffer returned and the rest of the stream.\<close>

definition read :: "bytes list \<Rightarrow> bytes \<times> bytes list" where
  "read s = (case s of [] \<Rightarrow> ([], []) | b # r \<Rightarrow> (b, r))"

text \<open>Python's \<open>opt and x > opt\<close> for an optional number: \<open>None\<close> and \<open>0\<close> are falsy.\<close>

definition truthy :: "real option \<Rightarrow> bool" where
  "truthy opt = (case opt of None \<Rightarrow> False | Some v \<Rightarrow> v \<noteq> 0)"

definition exceeds :: "real \<Rightarrow> real option \<Rightarrow> bool" where
  "exceeds x opt = (case opt of None \<Rightarrow> False | Some v \<Rightarrow> v \<noteq> 0 \<and> x > v)"

text \<open>\<open>(source.CHUNK + 0.0) / source.SAMPLE_RATE\<close>: \<open>CHUNK\<close> is converted and \<open>0.0\<close> added
  to it; \<open>SAMPLE_RATE\<close> is converted, and the division raises when it is zero.\<close>

definition seconds_per_buffer :: "arith \<Rightarrow> AudioSource \<Rightarrow> error + real" where
  "seconds_per_buffer A source =
     (case to_float A (CHUNK source) of
        None \<Rightarrow> Inl OverflowError
      | Some chunk \<Rightarrow>
          (case to_float A (SAMPLE_RATE source) of
             None \<Rightarrow> Inl OverflowError
           | Some rate \<Rightarrow>
               if rate = 0 then Inl ZeroDivisionError
               else Inr (fdiv A (fadd A chunk 0) rate)))"

text \<open>The asymmetric weighted average of lines 164-166 and 207-209; the exception is the
  one of \<open>**\<close>: zero cannot be raised to a negative power, and another power that is not a
  float is out of range.\<close>

definition adjust_energy :: "arith \<Rightarrow> Recognizer \<Rightarrow> real \<Rightarrow> nat \<Rightarrow> error + Recognizer" where
  "adjust_energy A self spb energy =
     (case fpow A (dynamic_energy_adjustment_damping self) spb of
        None \<Rightarrow> Inl (if dynamic_energy_adjustment_damping self = 0 then ZeroDivisionError
                     else OverflowError)
      | Some damping \<Rightarrow>
          (let target_energy = fmul A (real energy) (dynamic_energy_ratio self)
           in Inr (self\<lparr>energy_threshold :=
                          fadd A (fmul A (energy_threshold self) damping)
                                 (fmul A target_energy (fsub A 1 damping))\<rparr>)))"

subsection \<open>\<open>record\<close>\<close>

record record_state =
  r_frames :: bytes
  r_stream :: "bytes list"
  r_elapsed_time :: real
  r_offset_time :: real
  r_offset_reached :: bool

definition skip_offset :: "arith \<Rightarrow> real \<Rightarrow> real option \<Rightarrow> record_state \<Rightarrow> record_state" where
  "skip_offset A spb offset s =
     (if truthy offset \<and> \<not> r_offset_reached s then
        (let s1 = s\<lparr>r_offset_time := fadd A (r_offset_time s) spb\<rparr>
         in if r_offset_time s1 > the offset then s1\<lparr>r_offset_reached := True\<rparr> else s1)
      else s)"

function record_loop ::
  "arith \<Rightarrow> real \<Rightarrow> real option \<Rightarrow> real option \<Rightarrow> record_state \<Rightarrow> record_state" where
  "record_loop A spb duration offset s =
     (let s1 = skip_offset A spb offset s;
          buffer = fst (read (r_stream s1));
          s2 = s1\<lparr>r_stream := snd (read (r_stream s1))\<rparr>
      in if length buffer = 0 then s2
         else if r_offset_reached s2 \<or> \<not> truthy offset then
           (let s3 = s2\<lparr>r_elapsed_time := fadd A (r_elapsed_time s2) spb\<rparr>
            in if exceeds (r_elapsed_time s3) duration then s3
               else record_loop A spb duration offset (s3\<lparr>r_frames := r_frames s3 @ buffer\<rparr>))
         else record_loop A spb duration offset s2)"
  by pat_completeness auto
termination
  by (relation "measure (\<lambda>(A, spb, duration, offset, s). length (r_stream s))")
     (auto simp: read_def skip_offset_def Let_def split: list.splits if_splits)

definition record_audio ::
  "arith \<Rightarrow> Recognizer \<Rightarrow> AudioSource \<Rightarrow> real option \<Rightarrow> real option
     \<Rightarrow> (error + AudioData) \<times> Recognizer \<times> AudioSource" where
  "record_audio A self source duration offset =
     (case seconds_per_buffer A source of
        Inl e \<Rightarrow> (Inl e, self, source)
      | Inr spb \<Rightarrow>
          (let s = record_loop A spb duration offset
                     \<lparr>r_frames = [], r_stream = stream source, r_elapsed_time = 0,
                      r_offset_time = 0, r_offset_reached = False\<rparr>
           in (AudioData_init (r_frames s) (SAMPLE_RATE source) (SAMPLE_WIDTH source),
               self, source\<lparr>stream := r_stream s\<rparr>)))"

subsection \<open>\<open>adjust_for_ambient_noise\<close>\<close>

text \<open>
  Lines 157-166. The loop has no test for the end of the stream: it runs until
  \<open>elapsed_time\<close> exceeds \<open>duration\<close>, and need not end. The first argument bounds the
  number of iterations; \<open>None\<close> is "still running". The result is the exception raised, if
  any, with the recognizer and the stream as they are then.
\<close>

fun adjust_loop ::
  "arith \<Rightarrow> nat \<Rightarrow> (bytes \<Rightarrow> int \<Rightarrow> nat) \<Rightarrow> int \<Rightarrow> real \<Rightarrow> real \<Rightarrow> real \<Rightarrow> Recognizer
     \<Rightarrow> bytes list \<Rightarrow> (error option \<times> Recognizer \<times> bytes list) option" where
  "adjust_loop A 0 rms width spb duration elapsed_time self strm = None"
| "adjust_loop A (Suc n) rms width spb duration elapsed_time self strm =
     (let elapsed_time = fadd A elapsed_time spb
      in if elapsed_time > duration then Some (None, self, strm)
         else (let buffer = fst (read strm);
                   energy = rms buffer width
               in case adjust_energy A self spb energy of
                    Inl e \<Rightarrow> Some (Some e, self, snd (read strm))
                  | Inr self' \<Rightarrow>
                      adjust_loop A n rms width spb duration elapsed_time self'
                        (snd (read strm))))"

definition adjust_for_ambient_noise ::
  "arith \<Rightarrow> nat \<Rightarrow> (bytes \<Rightarrow> int \<Rightarrow> nat) \<Rightarrow> Recognizer \<Rightarrow> AudioSource \<Rightarrow> real
     \<Rightarrow> (error option \<times> Recognizer \<times> AudioSource) option" where
  "adjust_for_ambient_noise A n rms self source duration =
     (if \<not> (pause_threshold self \<ge> non_speaking_duration self \<and> non_speaking_duration self \<ge> 0)
      then Some (Some AssertionError, self, source)
      else case seconds_per_buffer A source of
        Inl e \<Rightarrow> Some (Some e, self, source)
      | Inr spb \<Rightarrow>
          (case adjust_loop A n rms (SAMPLE_WIDTH source) spb duration 0 self (stream source) of
             None \<Rightarrow> None
           | Some (e, self', strm) \<Rightarrow> Some (e, self', source\<lparr>stream := strm\<rparr>)))"

subsection \<open>\<open>listen\<close>\<close>

text \<open>The four values computed at lines 179-182; \<open>pause_threshold / seconds_per_buffer\<close>
  raises when \<open>seconds_per_buffer\<close> is zero.\<close>

record listen_locals =
  spb :: real
  pause_buffer_count :: int
  phrase_buffer_count :: int
  non_speaking_buffer_count :: int

definition buffer_counts :: "arith \<Rightarrow> Recognizer \<Rightarrow> AudioSource \<Rightarrow> error + listen_locals" where
  "buffer_counts A self source =
     (case seconds_per_buffer A source of
        Inl e \<Rightarrow> Inl e
      | Inr sec \<Rightarrow>
          if sec = 0 then Inl ZeroDivisionError
          else Inr \<lparr>spb = sec,
                    pause_buffer_count = \<lceil>fdiv A (pause_threshold self) sec\<rceil>,
                    phrase_buffer_count = \<lceil>fdiv A (phrase_threshold self) sec\<rceil>,
                    non_speaking_buffer_count =
                      \<lceil>fdiv A (non_speaking_duration self) sec\<rceil>\<rparr>)"

text \<open>The variables that the loops of \<open>listen\<close> change.\<close>

record listen_state =
  recognizer :: Recognizer
  strm :: "bytes list"
  elapsed_time :: real
  frames :: "bytes list"
  pause_count :: int
  phrase_count :: int

text \<open>Lines 190-209: store audio input until the phrase starts. \<open>Inl\<close> is the exception
  raised (\<open>WaitTimeoutError\<close>, or the one of \<open>**\<close>), with the state at that moment.\<close>

function phase_a ::
  "arith \<Rightarrow> (bytes \<Rightarrow> int \<Rightarrow> nat) \<Rightarrow> int \<Rightarrow> real option \<Rightarrow> listen_locals \<Rightarrow> listen_state
     \<Rightarrow> (error \<times> listen_state) + listen_state" where
  "phase_a A rms width timeout L s =
     (let s1 = s\<lparr>elapsed_time := fadd A (elapsed_time s) (spb L)\<rparr>
      in if exceeds (elapsed_time s1) timeout then Inl (WaitTimeoutError, s1)
         else (let buffer = fst (read (strm s1));
                   s2 = s1\<lparr>strm := snd (read (strm s1))\<rparr>
               in if length buffer = 0 then Inr s2
                  else (let s3 = s2\<lparr>frames := frames s2 @ [buffer]\<rparr>;
                            s4 = (if int (length (frames s3)) > non_speaking_buffer_count L
                                  then s3\<lparr>frames := tl (frames s3)\<rparr> else s3);
                            energy = rms buffer width
                        in if real energy > energy_threshold (recognizer s4) then Inr s4
                           else if dynamic_energy_threshold (recognizer s4) then
                             (case adjust_energy A (recognizer s4) (spb L) energy of
                                Inl e \<Rightarrow> Inl (e, s4)
                              | Inr self' \<Rightarrow>
                                  phase_a A rms width timeout L (s4\<lparr>recognizer := self'\<rparr>))
                           else phase_a A rms width timeout L s4)))"
  by pat_completeness auto
termination
  by (relation "measure (\<lambda>(A, rms, width, timeout, L, s). length (strm s))")
     (auto simp: read_def Let_def split: list.splits if_splits)

text \<open>Lines 213-228: read audio input until the phrase ends.\<close>

function phase_b ::
  "arith \<Rightarrow> (bytes \<Rightarrow> int \<Rightarrow> nat) \<Rightarrow> int \<Rightarrow> listen_locals \<Rightarrow> listen_state \<Rightarrow> listen_state" where
  "phase_b A rms width L s =
     (let s1 = s\<lparr>elapsed_time := fadd A (elapsed_time s) (spb L)\<rparr>;
          buffer = fst (read (strm s1));
          s2 = s1\<lparr>strm := snd (read (strm s1))\<rparr>
      in if length buffer = 0 then s2
         else (let s3 = s2\<lparr>frames := frames s2 @ [buffer], phrase_count := phrase_count s2 + 1\<rparr>;
                   energy = rms buffer width;
                   s4 = (if real energy > energy_threshold (recognizer s3)
                         then s3\<lparr>pause_count := 0\<rparr>
                         else s3\<lparr>pause_count := pause_count s3 + 1\<rparr>)
               in if pause_count s4 > pause_buffer_count L then s4
                  else phase_b A rms width L s4))"
  by pat_completeness auto
termination
  by (relation "measure (\<lambda>(A, rms, width, L, s). length (strm s))")
     (auto simp: read_def Let_def split: list.splits if_splits)

text \<open>Lines 186-232: the retry loop. It need not end (an exhausted stream is read again
  and again), so the first argument bounds the number of its iterations and \<open>None\<close> is
  "still running".\<close>

fun listen_loop ::
  "arith \<Rightarrow> nat \<Rightarrow> (bytes \<Rightarrow> int \<Rightarrow> nat) \<Rightarrow> int \<Rightarrow> real option \<Rightarrow> listen_locals \<Rightarrow> listen_state
     \<Rightarrow> ((error \<times> listen_state) + listen_state) option" where
  "listen_loop A 0 rms width timeout L s = None"
| "listen_loop A (Suc n) rms width timeout L s =
     (case phase_a A rms width timeout L (s\<lparr>frames := []\<rparr>) of
        Inl e \<Rightarrow> Some (Inl e)
      | Inr s1 \<Rightarrow>
          (let s2 = phase_b A rms width L (s1\<lparr>pause_count := 0, phrase_count := 0\<rparr>);
               s3 = s2\<lparr>phrase_count := phrase_count s2 - pause_count s2\<rparr>
           in if phrase_count s3 \<ge> phrase_buffer_count L then Some (Inr s3)
              else listen_loop A n rms width timeout L s3))"

text \<open>Line 235: \<open>for i in range(k): frames.pop()\<close>; \<open>pop\<close> on an empty deque raises.\<close>

fun pop_frames :: "nat \<Rightarrow> bytes list \<Rightarrow> error + bytes list" where
  "pop_frames 0 fr = Inr fr"
| "pop_frames (Suc k) fr = (if fr = [] then Inl IndexError else pop_frames k (butlast fr))"

text \<open>Lines 234-238: obtain the frame data.\<close>

definition obtain_frame_data :: "AudioSource \<Rightarrow> listen_locals \<Rightarrow> listen_state \<Rightarrow> error + AudioData" where
  "obtain_frame_data source L s =
     (case pop_frames (nat (pause_count s - non_speaking_buffer_count L)) (frames s) of
        Inl e \<Rightarrow> Inl e
      | Inr fr \<Rightarrow> AudioData_init (concat fr) (SAMPLE_RATE source) (SAMPLE_WIDTH source))"

text \<open>The state when the retry loop is entered (line 185).\<close>

definition listen_init :: "Recognizer \<Rightarrow> AudioSource \<Rightarrow> listen_state" where
  "listen_init self source =
     \<lparr>recognizer = self, strm = stream source, elapsed_time = 0, frames = [],
      pause_count = 0, phrase_count = 0\<rparr>"

text \<open>What the caller of \<open>listen\<close> gets when the retry loop is left: the exception or the
  audio data, and the recognizer and the source as they are then.\<close>

definition listen_result ::
  "AudioSource \<Rightarrow> listen_locals \<Rightarrow> ((error \<times> listen_state) + listen_state) option
     \<Rightarrow> ((error + AudioData) \<times> Recognizer \<times> AudioSource) option" where
  "listen_result source L r =
     (case r of
        None \<Rightarrow> None
      | Some (Inl (e, s)) \<Rightarrow> Some (Inl e, recognizer s, source\<lparr>stream := strm s\<rparr>)
      | Some (Inr s) \<Rightarrow>
          Some (obtain_frame_data source L s, recognizer s, source\<lparr>stream := strm s\<rparr>))"

definition listen ::
  "arith \<Rightarrow> nat \<Rightarrow> (bytes \<Rightarrow> int \<Rightarrow> nat) \<Rightarrow> Recognizer \<Rightarrow> AudioSource \<Rightarrow> real option
     \<Rightarrow> ((error + AudioData) \<times> Recognizer \<times> AudioSource) option" where
  "listen A n rms self source timeout =
     (if \<not> (pause_threshold self \<ge> non_speaking_duration self \<and> non_speaking_duration self \<ge> 0)
      then Some (Inl AssertionError, self, source)
      else case buffer_counts A self source of
        Inl e \<Rightarrow> Some (Inl e, self, source)
      | Inr L \<Rightarrow>
          listen_result source L
            (listen_loop A n rms (SAMPLE_WIDTH source) timeout L (listen_init self source)))"

subsection \<open>Notions used in the statements\<close>

text \<open>The state in which a loop of \<open>listen\<close> was left, by a \<open>raise\<close> or normally.\<close>

definition state_of :: "(error \<times> listen_state) + listen_state \<Rightarrow> listen_state" where
  "state_of r = (case r of Inl (e, s) \<Rightarrow> s | Inr s \<Rightarrow> s)"

text \<open>The buffers that \<open>k\<close> successive reads return.\<close>

fun read_n :: "nat \<Rightarrow> bytes list \<Rightarrow> bytes list" where
  "read_n 0 s = []"
| "read_n (Suc k) s = fst (read s) # read_n k (snd (read s))"

text \<open>The state after one iteration that read a non-empty buffer \<open>b\<close> (leaving \<open>r\<close> in the
  stream), in the second loop and in the first, and the adjustment that ends an iteration
  of the first loop; they serve to state the unfoldings below.\<close>

definition phase_b_step ::
  "arith \<Rightarrow> (bytes \<Rightarrow> int \<Rightarrow> nat) \<Rightarrow> int \<Rightarrow> listen_locals \<Rightarrow> listen_state \<Rightarrow> bytes \<Rightarrow> bytes list
     \<Rightarrow> listen_state" where
  "phase_b_step A rms w L s b r =
     s\<lparr>elapsed_time := fadd A (elapsed_time s) (spb L), strm := r, frames := frames s @ [b],
       phrase_count := phrase_count s + 1,
       pause_count := (if real (rms b w) > energy_threshold (recognizer s) then 0
                       else pause_count s + 1)\<rparr>"

definition phase_a_step ::
  "arith \<Rightarrow> (bytes \<Rightarrow> int \<Rightarrow> nat) \<Rightarrow> int \<Rightarrow> listen_locals \<Rightarrow> listen_state \<Rightarrow> bytes \<Rightarrow> bytes list
     \<Rightarrow> listen_state" where
  "phase_a_step A rms w L s b r =
     s\<lparr>elapsed_time := fadd A (elapsed_time s) (spb L), strm := r,
       frames := (if int (length (frames s @ [b])) > non_speaking_buffer_count L
                  then tl (frames s @ [b]) else frames s @ [b])\<rparr>"

definition phase_a_adjust ::
  "arith \<Rightarrow> (bytes \<Rightarrow> int \<Rightarrow> nat) \<Rightarrow> int \<Rightarrow> listen_locals \<Rightarrow> listen_state \<Rightarrow> bytes
     \<Rightarrow> error + listen_state" where
  "phase_a_adjust A rms w L s b =
     (if dynamic_energy_threshold (recognizer s)
      then (case adjust_energy A (recognizer s) (spb L) (rms b w) of
              Inl e \<Rightarrow> Inl e
            | Inr self' \<Rightarrow> Inr (s\<lparr>recognizer := self'\<rparr>))
      else Inr s)"

text \<open>The clock of \<open>record\<close> and of \<open>adjust_for_ambient_noise\<close>: it starts at \<open>0\<close> and one
  buffer is added to it at a time, in the arithmetic of the code; \<open>clock A dt j\<close> is its
  value after \<open>j\<close> buffers of \<open>dt\<close> seconds. \<open>buffers_within A dt x t n\<close> is the number of
  buffers, \<open>n\<close> at most, that are added to a clock at \<open>t\<close> before it exceeds \<open>x\<close>.\<close>

definition clock :: "arith \<Rightarrow> real \<Rightarrow> nat \<Rightarrow> real" where
  "clock A dt j = ((\<lambda>t. fadd A t dt) ^^ j) 0"

fun buffers_within :: "arith \<Rightarrow> real \<Rightarrow> real \<Rightarrow> real \<Rightarrow> nat \<Rightarrow> nat" where
  "buffers_within A dt x t 0 = 0"
| "buffers_within A dt x t (Suc n) =
     (if fadd A t dt > x then 0 else Suc (buffers_within A dt x (fadd A t dt) n))"

text \<open>The same number for an optional bound, as \<open>record\<close> takes its \<open>duration\<close> and its
  \<open>offset\<close>: \<open>None\<close> and \<open>0\<close> bound nothing.\<close>

definition buffers_upto :: "arith \<Rightarrow> real \<Rightarrow> real option \<Rightarrow> real \<Rightarrow> nat \<Rightarrow> nat" where
  "buffers_upto A dt opt t n =
     (case opt of None \<Rightarrow> n | Some x \<Rightarrow> if x = 0 then n else buffers_within A dt x t n)"

text \<open>The update of the energy threshold in the words of the specification:
  \<open>th \<leftarrow> th \<sqdot> damping + (energy \<sqdot> ratio) \<sqdot> (1 - damping)\<close>, in the arithmetic of the code.\<close>

definition weighted_average :: "arith \<Rightarrow> real \<Rightarrow> real \<Rightarrow> real \<Rightarrow> nat \<Rightarrow> real" where
  "weighted_average A damping ratio th energy =
     fadd A (fmul A th damping) (fmul A (fmul A (real energy) ratio) (fsub A 1 damping))"

text \<open>What the statements on the buffer counts use of the arithmetic: a positive \<open>int\<close> is
  converted to a positive float, adding \<open>0.0\<close> to a positive float leaves it positive, and
  the division by a positive float keeps the order and the sign \<open>0 \<le>\<close>. Rounding to
  the nearest float keeps the order, so the arithmetic of Python is such.\<close>

definition monotone_arith :: "arith \<Rightarrow> bool" where
  "monotone_arith A =
     ((\<forall>i x. 0 < i \<and> to_float A i = Some x \<longrightarrow> 0 < x)
      \<and> (\<forall>x. 0 < x \<longrightarrow> 0 < fadd A x 0)
      \<and> (\<forall>x d. 0 \<le> x \<and> 0 < d \<longrightarrow> 0 \<le> fdiv A x d)
      \<and> (\<forall>x y d. x \<le> y \<and> 0 < d \<longrightarrow> fdiv A x d \<le> fdiv A y d))"

subsection \<open>Concrete arithmetic and sources\<close>

text \<open>The arithmetic without rounding. \<open>x ** y\<close> is \<open>1.0\<close> when \<open>y\<close> is zero, raises when
  \<open>x\<close> is zero and \<open>y\<close> negative, and is not a float when \<open>x\<close> is negative and \<open>y\<close> is not
  an integer. An operation of Python on floats returns the exact result whenever that
  result is a float, as is the case of the sums, differences, products and quotients of
  small integers and halves in the runs at 1 Hz below.\<close>

definition exact_pow :: "real \<Rightarrow> real \<Rightarrow> real option" where
  "exact_pow x y =
     (if y = 0 then Some 1
      else if 0 < x then Some (x powr y)
      else if x = 0 then (if 0 < y then Some 0 else None)
      else if y = real_of_int \<lfloor>y\<rfloor> then Some (x powi \<lfloor>y\<rfloor>)
      else None)"

definition exact :: arith where
  "exact = \<lparr>to_float = (\<lambda>i. Some (real_of_int i)), fadd = (+), fsub = (-), fmul = (*),
            fdiv = (/), fpow = exact_pow\<rparr>"

text \<open>On a fragment of one sample of width 1, \<open>audioop.rms\<close> is the absolute value of the
  (signed) sample, and on the empty fragment it is 0. The concrete runs below use only such
  fragments; \<open>rms_width1\<close> is \<open>audioop.rms\<close> on them.\<close>

definition rms_width1 :: "bytes \<Rightarrow> int \<Rightarrow> nat" where
  "rms_width1 fragment width = (case fragment of [x] \<Rightarrow> nat \<bar>sint x\<bar> | _ \<Rightarrow> 0)"

text \<open>A source of one-byte samples read one sample at a time at 1 Hz: one buffer is one
  second.\<close>

definition one_hertz :: "bytes list \<Rightarrow> AudioSource" where
  "one_hertz bs = \<lparr>SAMPLE_RATE = 1, SAMPLE_WIDTH = 1, CHUNK = 1, stream = bs\<rparr>"

text \<open>A recognizer whose three durations are one second and whose energy threshold is 10.\<close>

definition one_second :: Recognizer where
  "one_second = Recognizer_init\<lparr>energy_threshold := 10, pause_threshold := 1,
                                 phrase_threshold := 1, non_speaking_duration := 1\<rparr>"

section \<open>Basic facts\<close>

declare phase_a.simps [simp del] phase_b.simps [simp del] record_loop.simps [simp del]

lemma exceeds_not_truthy: "\<not> truthy t \<Longrightarrow> exceeds x t = False"
  by (auto simp: truthy_def exceeds_def split: option.splits)

lemma pop_frames_error: "pop_frames k fr = Inl e \<Longrightarrow> e = IndexError"
  by (induction k arbitrary: fr) (auto split: if_splits)

lemma buffer_counts_error:
  "buffer_counts A self source = Inl e \<Longrightarrow> e = ZeroDivisionError \<or> e = OverflowError"
  by (auto simp: buffer_counts_def seconds_per_buffer_def split: if_splits option.splits)

lemma adjust_energy_error:
  "adjust_energy A self sec energy = Inl e \<Longrightarrow> e = OverflowError \<or> e = ZeroDivisionError"
  by (auto simp: adjust_energy_def Let_def split: option.splits if_splits)

subsection \<open>One iteration of each loop\<close>

lemma read_Nil: "read [] = ([], [])"
  by (simp add: read_def)
lemma read_Cons: "read (b # r) = (b, r)"
  by (simp add: read_def)

lemma state_of_simps [simp]: "state_of (Inl (e, s)) = s" "state_of (Inr s) = s"
  by (simp_all add: state_of_def)

lemma phase_a_Nil:
  "strm s = [] \<Longrightarrow>
   phase_a A rms w t L s =
     (if exceeds (fadd A (elapsed_time s) (spb L)) t
      then Inl (WaitTimeoutError, s\<lparr>elapsed_time := fadd A (elapsed_time s) (spb L)\<rparr>)
      else Inr (s\<lparr>elapsed_time := fadd A (elapsed_time s) (spb L), strm := []\<rparr>))"
  by (subst phase_a.simps) (simp add: Let_def read_Nil)

lemma phase_a_Cons:
  "strm s = b # r \<Longrightarrow>
   phase_a A rms w t L s =
     (if exceeds (fadd A (elapsed_time s) (spb L)) t
      then Inl (WaitTimeoutError, s\<lparr>elapsed_time := fadd A (elapsed_time s) (spb L)\<rparr>)
      else if b = [] then Inr (s\<lparr>elapsed_time := fadd A (elapsed_time s) (spb L), strm := r\<rparr>)
      else (let fr = (if int (length (frames s @ [b])) > non_speaking_buffer_count L
                      then tl (frames s @ [b]) else frames s @ [b]);
                s' = s\<lparr>elapsed_time := fadd A (elapsed_time s) (spb L), strm := r, frames := fr\<rparr>
            in if real (rms b w) > energy_threshold (recognizer s) then Inr s'
               else if dynamic_energy_threshold (recognizer s) then
                 (case adjust_energy A (recognizer s) (spb L) (rms b w) of
                    Inl e \<Rightarrow> Inl (e, s')
                  | Inr self' \<Rightarrow> phase_a A rms w t L (s'\<lparr>recognizer := self'\<rparr>))
               else phase_a A rms w t L s'))"
  by (subst phase_a.simps) (simp add: Let_def read_Cons split: sum.splits)

lemma phase_b_Nil:
  "strm s = [] \<Longrightarrow> phase_b A rms w L s = s\<lparr>elapsed_time := fadd A (elapsed_time s) (spb L), strm := []\<rparr>"
  by (subst phase_b.simps) (simp add: Let_def read_Nil)

lemma phase_b_Cons:
  "strm s = b # r \<Longrightarrow>
   phase_b A rms w L s =
     (if b = [] then s\<lparr>elapsed_time := fadd A (elapsed_time s) (spb L), strm := r\<rparr>
      else (let pc = (if real (rms b w) > energy_threshold (recognizer s) then 0
                      else pause_count s + 1);
                s' = s\<lparr>elapsed_time := fadd A (elapsed_time s) (spb L), strm := r,
                        frames := frames s @ [b], phrase_count := phrase_count s + 1,
                        pause_count := pc\<rparr>
            in if pc > pause_buffer_count L then s' else phase_b A rms w L s'))"
  by (subst phase_b.simps) (simp add: Let_def read_Cons)

lemma listen_loop_exhausted:
  "strm s = [] \<Longrightarrow> \<not> truthy t \<Longrightarrow> 0 < phrase_buffer_count L \<Longrightarrow> listen_loop A n rms w t L s = None"
proof (induction n arbitrary: s)
  case 0
  show ?case by simp
next
  case (Suc n)
  show ?case using Suc.prems
    by (simp add: phase_a_Nil phase_b_Nil exceeds_not_truthy Let_def Suc.IH)
qed

lemma phase_b_recognizer: "recognizer (phase_b A rms w L s) = recognizer s"
proof (induction A rms w L s rule: phase_b.induct)
  case (1 A rms width L s)
  show ?case
    apply (subst phase_b.simps)
    using 1 apply (simp add: Let_def)
    done
qed

lemma phase_b_unfold:
  "strm s = b # r \<Longrightarrow> b \<noteq> [] \<Longrightarrow>
   phase_b A rms w L s =
     (if pause_count (phase_b_step A rms w L s b r) > pause_buffer_count L
      then phase_b_step A rms w L s b r else phase_b A rms w L (phase_b_step A rms w L s b r))"
  by (simp add: phase_b_Cons phase_b_step_def Let_def)

lemma phase_a_unfold:
  "strm s = b # r \<Longrightarrow> b \<noteq> [] \<Longrightarrow> \<not> exceeds (fadd A (elapsed_time s) (spb L)) t \<Longrightarrow>
   phase_a A rms w t L s =
     (if real (rms b w) > energy_threshold (recognizer s) then Inr (phase_a_step A rms w L s b r)
      else case phase_a_adjust A rms w L (phase_a_step A rms w L s b r) b of
             Inl e \<Rightarrow> Inl (e, phase_a_step A rms w L s b r)
           | Inr s' \<Rightarrow> phase_a A rms w t L s')"
  by (simp add: phase_a_Cons phase_a_step_def phase_a_adjust_def Let_def split: sum.splits)

lemma phase_a_adjust_error:
  "phase_a_adjust A rms w L s b = Inl e \<Longrightarrow> e = OverflowError \<or> e = ZeroDivisionError"
  by (auto simp: phase_a_adjust_def split: if_splits sum.splits dest: adjust_energy_error)

lemma adjust_energy_Inr:
  assumes "adjust_energy A self sec energy = Inr self'"
  shows "dynamic_energy_threshold self' = dynamic_energy_threshold self"
    "dynamic_energy_adjustment_damping self' = dynamic_energy_adjustment_damping self"
    "dynamic_energy_ratio self' = dynamic_energy_ratio self"
    "pause_threshold self' = pause_threshold self"
    "phrase_threshold self' = phrase_threshold self"
    "non_speaking_duration self' = non_speaking_duration self"
  using assms by (auto simp: adjust_energy_def Let_def split: option.splits)

lemma phase_a_adjust_Inr:
  assumes "phase_a_adjust A rms w L s b = Inr s'"
  shows "strm s' = strm s" "frames s' = frames s" "elapsed_time s' = elapsed_time s"
    "pause_count s' = pause_count s" "phrase_count s' = phrase_count s"
    "dynamic_energy_threshold (recognizer s') = dynamic_energy_threshold (recognizer s)"
    "\<not> dynamic_energy_threshold (recognizer s) \<Longrightarrow> s' = s"
  using assms
  by (auto simp: phase_a_adjust_def split: if_splits sum.splits dest: adjust_energy_Inr(1))

lemma phase_b_induct [case_names Nil Eof Stop Continue]:
  assumes Nil: "\<And>s. strm s = [] \<Longrightarrow> P s (s\<lparr>elapsed_time := fadd A (elapsed_time s) (spb L), strm := []\<rparr>)"
    and Eof: "\<And>s r. strm s = [] # r \<Longrightarrow> P s (s\<lparr>elapsed_time := fadd A (elapsed_time s) (spb L), strm := r\<rparr>)"
    and Stop: "\<And>s b r. strm s = b # r \<Longrightarrow> b \<noteq> [] \<Longrightarrow>
                 pause_count (phase_b_step A rms w L s b r) > pause_buffer_count L \<Longrightarrow>
                 P s (phase_b_step A rms w L s b r)"
    and Continue: "\<And>s b r. strm s = b # r \<Longrightarrow> b \<noteq> [] \<Longrightarrow>
                 \<not> pause_count (phase_b_step A rms w L s b r) > pause_buffer_count L \<Longrightarrow>
                 P (phase_b_step A rms w L s b r) (phase_b A rms w L (phase_b_step A rms w L s b r)) \<Longrightarrow>
                 P s (phase_b A rms w L (phase_b_step A rms w L s b r))"
  shows "P s (phase_b A rms w L s)"
proof (induction "strm s" arbitrary: s)
  case Nil
  then show ?case using assms(1)[of s] by (simp add: phase_b_Nil)
next
  case (Cons b r)
  have st: "strm s = b # r" using Cons.hyps(2) by simp
  show ?case
  proof (cases "b = []")
    case True
    then show ?thesis using Eof[of s r] st by (simp add: phase_b_Cons)
  next
    case False
    have r: "r = strm (phase_b_step A rms w L s b r)" by (simp add: phase_b_step_def)
    show ?thesis
      using Stop[OF st False] Continue[OF st False] Cons.hyps(1)[OF r]
      by (simp add: phase_b_unfold[OF st False])
  qed
qed

lemma phase_a_induct [case_names Timeout Nil Eof Trigger Raise Continue]:
  assumes Timeout: "\<And>s. exceeds (fadd A (elapsed_time s) (spb L)) t \<Longrightarrow>
                      P s (Inl (WaitTimeoutError, s\<lparr>elapsed_time := fadd A (elapsed_time s) (spb L)\<rparr>))"
    and Nil: "\<And>s. \<not> exceeds (fadd A (elapsed_time s) (spb L)) t \<Longrightarrow> strm s = [] \<Longrightarrow>
                P s (Inr (s\<lparr>elapsed_time := fadd A (elapsed_time s) (spb L), strm := []\<rparr>))"
    and Eof: "\<And>s r. \<not> exceeds (fadd A (elapsed_time s) (spb L)) t \<Longrightarrow> strm s = [] # r \<Longrightarrow>
                P s (Inr (s\<lparr>elapsed_time := fadd A (elapsed_time s) (spb L), strm := r\<rparr>))"
    and Trigger: "\<And>s b r. \<not> exceeds (fadd A (elapsed_time s) (spb L)) t \<Longrightarrow> strm s = b # r \<Longrightarrow> b \<noteq> [] \<Longrightarrow>
                 real (rms b w) > energy_threshold (recognizer s) \<Longrightarrow>
                 P s (Inr (phase_a_step A rms w L s b r))"
    and Raise: "\<And>s b r e. \<not> exceeds (fadd A (elapsed_time s) (spb L)) t \<Longrightarrow> strm s = b # r \<Longrightarrow> b \<noteq> [] \<Longrightarrow>
                 \<not> real (rms b w) > energy_threshold (recognizer s) \<Longrightarrow>
                 phase_a_adjust A rms w L (phase_a_step A rms w L s b r) b = Inl e \<Longrightarrow>
                 P s (Inl (e, phase_a_step A rms w L s b r))"
    and Continue: "\<And>s b r s'. \<not> exceeds (fadd A (elapsed_time s) (spb L)) t \<Longrightarrow> strm s = b # r \<Longrightarrow> b \<noteq> [] \<Longrightarrow>
                 \<not> real (rms b w) > energy_threshold (recognizer s) \<Longrightarrow>
                 phase_a_adjust A rms w L (phase_a_step A rms w L s b r) b = Inr s' \<Longrightarrow>
                 P s' (phase_a A rms w t L s') \<Longrightarrow>
                 P s (phase_a A rms w t L s')"
  shows "P s (phase_a A rms w t L s)"
proof (induction "strm s" arbitrary: s)
  case Nil
  then show ?case using assms(1)[of s] assms(2)[of s] by (simp add: phase_a_Nil)
next
  case (Cons b r)
  have st: "strm s = b # r" using Cons.hyps(2) by simp
  show ?case
  proof (cases "exceeds (fadd A (elapsed_time s) (spb L)) t")
    case True
    then show ?thesis using Timeout[of s] st by (simp add: phase_a_Cons)
  next
    case ne: False
    show ?thesis
    proof (cases "b = []")
      case True
      then show ?thesis using Eof[of s r] st ne by (simp add: phase_a_Cons)
    next
      case False
      show ?thesis
      proof (cases "real (rms b w) > energy_threshold (recognizer s)")
        case True
        then show ?thesis
          using Trigger[OF ne st False] by (simp add: phase_a_unfold[OF st False ne])
      next
        case quiet: False
        show ?thesis
        proof (cases "phase_a_adjust A rms w L (phase_a_step A rms w L s b r) b")
          case (Inl e)
          then show ?thesis
            using Raise[OF ne st False quiet Inl] quiet
            by (simp add: phase_a_unfold[OF st False ne])
        next
          case (Inr s')
          have r: "r = strm s'"
            using phase_a_adjust_Inr(1)[OF Inr] by (simp add: phase_a_step_def)
          show ?thesis
            using Continue[OF ne st False quiet Inr Cons.hyps(1)[OF r]] quiet Inr
            by (simp add: phase_a_unfold[OF st False ne])
        qed
      qed
    qed
  qed
qed




subsection \<open>A falsy timeout, duration or offset is no timeout, duration or offset\<close>

lemma phase_a_falsy:
  assumes "\<not> truthy t" "\<not> truthy t'"
  shows "phase_a A rms w t L s = phase_a A rms w t' L s"
proof (rule phase_a_induct[where P = "\<lambda>s res. res = phase_a A rms w t' L s"], goal_cases)
  case (1 s)
  then show ?case using assms by (simp add: exceeds_not_truthy)
next
  case (2 s)
  then show ?case using assms by (simp add: phase_a_Nil exceeds_not_truthy)
next
  case (3 s r)
  then show ?case using assms by (simp add: phase_a_Cons exceeds_not_truthy)
next
  case (4 s b r)
  have "\<not> exceeds (fadd A (elapsed_time s) (spb L)) t'"
    using assms by (simp add: exceeds_not_truthy)
  then show ?case using 4 by (simp add: phase_a_unfold)
next
  case (5 s b r e)
  have "\<not> exceeds (fadd A (elapsed_time s) (spb L)) t'"
    using assms by (simp add: exceeds_not_truthy)
  then show ?case using 5 by (simp add: phase_a_unfold)
next
  case (6 s b r s')
  have "\<not> exceeds (fadd A (elapsed_time s) (spb L)) t'"
    using assms by (simp add: exceeds_not_truthy)
  then show ?case using 6 by (simp add: phase_a_unfold)
qed

lemma listen_loop_falsy:
  "\<not> truthy t \<Longrightarrow> \<not> truthy t' \<Longrightarrow> listen_loop A n rms w t L s = listen_loop A n rms w t' L s"
proof (induction n arbitrary: s)
  case 0
  show ?case by simp
next
  case (Suc n)
  have "phase_a A rms w t L (s\<lparr>frames := []\<rparr>) = phase_a A rms w t' L (s\<lparr>frames := []\<rparr>)"
    using Suc.prems by (rule phase_a_falsy)
  then show ?case using Suc by (simp add: Let_def split: sum.splits)
qed

lemma phase_a_no_raise:
  "\<not> truthy t \<Longrightarrow> phase_a A rms w t L s \<noteq> Inl (WaitTimeoutError, s')"
  by (rule phase_a_induct[where P = "\<lambda>s res. res \<noteq> Inl (WaitTimeoutError, s')"])
     (auto simp: exceeds_not_truthy dest: phase_a_adjust_error)

lemma listen_loop_no_raise:
  "\<not> truthy t \<Longrightarrow> listen_loop A n rms w t L s \<noteq> Some (Inl (WaitTimeoutError, s'))"
proof (induction n arbitrary: s)
  case 0
  show ?case by simp
next
  case (Suc n)
  then show ?case
    using phase_a_no_raise[where t = t and A = A and rms = rms and w = w and L = L]
    by (auto simp add: Let_def split: sum.splits)
qed

lemma skip_offset_falsy: "\<not> truthy t \<Longrightarrow> skip_offset A sec t s = s"
  by (simp add: skip_offset_def)

lemma record_loop_duration_falsy:
  "\<not> truthy d \<Longrightarrow> \<not> truthy d' \<Longrightarrow> record_loop A sec d off s = record_loop A sec d' off s"
proof (induction A sec d off s rule: record_loop.induct)
  case (1 A sec duration offset s)
  show ?case
    apply (subst record_loop.simps[of A sec duration offset s])
    apply (subst record_loop.simps[of A sec d' offset s])
    using 1 apply (simp add: exceeds_not_truthy Let_def)
    done
qed

lemma record_loop_offset_falsy:
  "\<not> truthy off \<Longrightarrow> \<not> truthy off' \<Longrightarrow> record_loop A sec d off s = record_loop A sec d off' s"
proof (induction A sec d off s rule: record_loop.induct)
  case (1 A sec duration offset s)
  show ?case
    apply (subst record_loop.simps[of A sec duration offset s])
    apply (subst record_loop.simps[of A sec duration off' s])
    using 1 apply (simp add: skip_offset_falsy Let_def)
    done
qed

subsection \<open>The ring of buffers\<close>

lemma phase_b_frames:
  "\<exists>new. frames (phase_b A rms w L s) = frames s @ new
         \<and> phrase_count (phase_b A rms w L s) = phrase_count s + int (length new)
         \<and> set new \<subseteq> set (strm s)"
proof (induction rule: phase_b_induct[where P = "\<lambda>s s'. \<exists>new. frames s' = frames s @ new
         \<and> phrase_count s' = phrase_count s + int (length new) \<and> set new \<subseteq> set (strm s)"])
  case (Nil s)
  then show ?case by simp
next
  case (Eof s r)
  then show ?case by simp
next
  case (Stop s b r)
  then show ?case by (simp add: phase_b_step_def)
next
  case (Continue s b r)
  then obtain new where n: "frames (phase_b A rms w L (phase_b_step A rms w L s b r)) = frames (phase_b_step A rms w L s b r) @ new"
    "phrase_count (phase_b A rms w L (phase_b_step A rms w L s b r)) = phrase_count (phase_b_step A rms w L s b r) + int (length new)"
    "set new \<subseteq> set (strm (phase_b_step A rms w L s b r))"
    by blast
  have "frames (phase_b A rms w L (phase_b_step A rms w L s b r)) = frames s @ (b # new)
    \<and> phrase_count (phase_b A rms w L (phase_b_step A rms w L s b r)) = phrase_count s + int (length (b # new))
    \<and> set (b # new) \<subseteq> set (strm s)"
    using n Continue.hyps(1) by (auto simp: phase_b_step_def)
  then show ?case by blast
qed

lemma phase_b_pause_count:
  "0 \<le> pause_count s \<and> pause_count s \<le> phrase_count s \<longrightarrow>
   0 \<le> pause_count (phase_b A rms w L s) \<and> pause_count (phase_b A rms w L s) \<le> phrase_count (phase_b A rms w L s)"
  by (rule phase_b_induct[where P = "\<lambda>s s'. 0 \<le> pause_count s \<and> pause_count s \<le> phrase_count s \<longrightarrow>
   0 \<le> pause_count s' \<and> pause_count s' \<le> phrase_count s'"])
    (simp_all add: phase_b_step_def)

lemma set_tl_subset: "set (tl xs) \<subseteq> set xs"
  by (cases xs) auto

lemma phase_a_frames:
  "int (length (frames s)) \<le> max 0 (non_speaking_buffer_count L) \<longrightarrow>
   int (length (frames (state_of (phase_a A rms w t L s)))) \<le> max 0 (non_speaking_buffer_count L)"
proof (rule phase_a_induct[where P = "\<lambda>s r. int (length (frames s)) \<le> max 0 (non_speaking_buffer_count L) \<longrightarrow>
   int (length (frames (state_of r))) \<le> max 0 (non_speaking_buffer_count L)"], goal_cases)
  case (6 s b r s')
  have "frames s' = frames (phase_a_step A rms w L s b r)"
    using phase_a_adjust_Inr(2)[OF 6(5)] by simp
  then show ?case using 6(6) by (auto simp: phase_a_step_def split: if_splits)
qed (auto simp: phase_a_step_def)

lemma phase_a_frames_set:
  "set (frames (state_of (phase_a A rms w t L s))) \<subseteq> set (frames s) \<union> set (strm s)"
proof (rule phase_a_induct[where P = "\<lambda>s r. set (frames (state_of r)) \<subseteq> set (frames s) \<union> set (strm s)"],
    goal_cases)
  case (4 s b r)
  then show ?case using set_tl_subset[of "frames s @ [b]"] by (auto simp: phase_a_step_def)
next
  case (5 s b r e)
  then show ?case using set_tl_subset[of "frames s @ [b]"] by (auto simp: phase_a_step_def)
next
  case (6 s b r s')
  have "frames s' = frames (phase_a_step A rms w L s b r)" "strm s' = r"
    using phase_a_adjust_Inr(1,2)[OF 6(5)] by (simp_all add: phase_a_step_def)
  then show ?case using 6 set_tl_subset[of "frames s @ [b]"]
    by (auto simp: phase_a_step_def split: if_splits)
qed auto

lemma phase_b_strm: "set (strm (phase_b A rms w L s)) \<subseteq> set (strm s)"
  by (rule phase_b_induct[where P = "\<lambda>s s'. set (strm s') \<subseteq> set (strm s)"])
     (auto simp: phase_b_step_def)

lemma phase_a_strm: "set (strm (state_of (phase_a A rms w t L s))) \<subseteq> set (strm s)"
proof (rule phase_a_induct[where P = "\<lambda>s r. set (strm (state_of r)) \<subseteq> set (strm s)"], goal_cases)
  case (6 s b r s')
  have "strm s' = r" using phase_a_adjust_Inr(1)[OF 6(5)] by (simp add: phase_a_step_def)
  then show ?case using 6 by auto
qed (auto simp: phase_a_step_def)

lemma phase_b_step_silence:
  assumes "\<forall>x\<in>set (take (nat (pause_count s)) (rev (frames s))). \<not> real (rms x w) > th"
    and "0 \<le> pause_count s" and "energy_threshold (recognizer s) = th"
  shows "(\<forall>x\<in>set (take (nat (pause_count (phase_b_step A rms w L s b r)))
                      (rev (frames (phase_b_step A rms w L s b r)))). \<not> real (rms x w) > th)
         \<and> 0 \<le> pause_count (phase_b_step A rms w L s b r)
         \<and> energy_threshold (recognizer (phase_b_step A rms w L s b r)) = th"
proof (cases "real (rms b w) > energy_threshold (recognizer s)")
  case True
  then show ?thesis using assms(3) by (simp add: phase_b_step_def)
next
  case False
  have n: "nat (pause_count s + 1) = Suc (nat (pause_count s))"
    using assms(2) by simp
  have "pause_count (phase_b_step A rms w L s b r) = pause_count s + 1"
    "frames (phase_b_step A rms w L s b r) = frames s @ [b]"
    "recognizer (phase_b_step A rms w L s b r) = recognizer s"
    using False by (simp_all add: phase_b_step_def)
  then show ?thesis using assms False by (simp add: n)
qed

lemma phase_b_silence:
  "(\<forall>x\<in>set (take (nat (pause_count s)) (rev (frames s))). \<not> real (rms x w) > th)
   \<and> 0 \<le> pause_count s \<and> energy_threshold (recognizer s) = th \<longrightarrow>
   (\<forall>x\<in>set (take (nat (pause_count (phase_b A rms w L s))) (rev (frames (phase_b A rms w L s)))).
       \<not> real (rms x w) > th)"
proof (induction rule: phase_b_induct[where P = "\<lambda>s s'.
   (\<forall>x\<in>set (take (nat (pause_count s)) (rev (frames s))). \<not> real (rms x w) > th)
   \<and> 0 \<le> pause_count s \<and> energy_threshold (recognizer s) = th \<longrightarrow>
   (\<forall>x\<in>set (take (nat (pause_count s')) (rev (frames s'))). \<not> real (rms x w) > th)"])
  case (Nil s)
  then show ?case by simp
next
  case (Eof s r)
  then show ?case by simp
next
  case (Stop s b r)
  show ?case using phase_b_step_silence[where A = A and s = s and rms = rms and w = w and th = th and L = L and b = b and r = r] by blast
next
  case (Continue s b r)
  show ?case using phase_b_step_silence[where A = A and s = s and rms = rms and w = w and th = th and L = L and b = b and r = r] Continue.IH by blast
qed

lemma listen_loop_emitted:
  "listen_loop A n rms w t L s0 = Some (Inr s) \<Longrightarrow>
   \<exists>pre. int (length (frames s)) = pre + phrase_count s + pause_count s
        \<and> 0 \<le> pre \<and> pre \<le> max 0 (non_speaking_buffer_count L)
        \<and> 0 \<le> pause_count s \<and> 0 \<le> phrase_count s
        \<and> phrase_buffer_count L \<le> phrase_count s
        \<and> set (frames s) \<subseteq> set (strm s0)
        \<and> (\<forall>b\<in>set (take (nat (pause_count s)) (rev (frames s))).
              \<not> real (rms b w) > energy_threshold (recognizer s))"
proof (induction n arbitrary: s0)
  case 0
  then show ?case by simp
next
  case (Suc n)
  show ?case
  proof (cases "phase_a A rms w t L (s0\<lparr>frames := []\<rparr>)")
    case (Inl es)
    then show ?thesis using Suc.prems by simp
  next
    case (Inr s1)
    define s1' where "s1' = s1\<lparr>pause_count := 0, phrase_count := 0\<rparr>"
    define s2 where "s2 = phase_b A rms w L s1'"
    define s3 where "s3 = s2\<lparr>phrase_count := phrase_count s2 - pause_count s2\<rparr>"
    have step: "listen_loop A (Suc n) rms w t L s0 =
                  (if phrase_count s3 \<ge> phrase_buffer_count L then Some (Inr s3)
                   else listen_loop A n rms w t L s3)"
      by (simp add: Inr s1'_def s2_def s3_def Let_def)
    have pre: "int (length (frames s1)) \<le> max 0 (non_speaking_buffer_count L)"
      using phase_a_frames[of "s0\<lparr>frames := []\<rparr>" L A rms w t] Inr by simp
    have set1: "set (frames s1) \<subseteq> set (strm s0)" "set (strm s1) \<subseteq> set (strm s0)"
      using phase_a_frames_set[of A rms w t L "s0\<lparr>frames := []\<rparr>"]
        phase_a_strm[of A rms w t L "s0\<lparr>frames := []\<rparr>"] Inr by simp_all
    obtain new where new: "frames s2 = frames s1 @ new" "phrase_count s2 = int (length new)"
      "set new \<subseteq> set (strm s1)"
      using phase_b_frames[of A rms w L s1'] by (auto simp: s2_def s1'_def)
    have pc: "0 \<le> pause_count s2" "pause_count s2 \<le> phrase_count s2"
      using phase_b_pause_count[of s1' A rms w L] by (simp_all add: s2_def s1'_def)
    have sil: "\<forall>b\<in>set (take (nat (pause_count s2)) (rev (frames s2))).
              \<not> real (rms b w) > energy_threshold (recognizer s2)"
      using phase_b_silence[where s = s1' and rms = rms and w = w and L = L
              and th = "energy_threshold (recognizer s1')"]
        phase_b_recognizer[of A rms w L s1']
      by (simp add: s2_def s1'_def)
    have set2: "set (strm s2) \<subseteq> set (strm s0)"
      using phase_b_strm[of A rms w L s1'] set1(2) by (auto simp: s2_def s1'_def)
    show ?thesis
    proof (cases "phrase_count s3 \<ge> phrase_buffer_count L")
      case True
      then have s: "s = s3" using Suc.prems step by simp
      have "int (length (frames s)) = int (length (frames s1)) + phrase_count s + pause_count s"
        using new by (simp add: s s3_def)
      moreover have "set (frames s) \<subseteq> set (strm s0)"
        using new set1 by (auto simp: s s3_def)
      ultimately show ?thesis using pre pc True sil
        by (intro exI[of _ "int (length (frames s1))"]) (simp add: s s3_def)
    next
      case False
      then have "listen_loop A n rms w t L s3 = Some (Inr s)" using Suc.prems step by simp
      from Suc.IH[OF this] show ?thesis using set2 by (auto simp: s3_def)
    qed
  qed
qed

lemma length_concat_const: "\<forall>b\<in>set xs. length b = m \<Longrightarrow> length (concat xs) = length xs * m"
  by (induction xs) simp_all

lemma pop_frames_take:
  "pop_frames k fr = (if k \<le> length fr then Inr (take (length fr - k) fr) else Inl IndexError)"
proof (induction k arbitrary: fr)
  case 0
  show ?case by simp
next
  case (Suc k)
  show ?case
  proof (cases "fr = []")
    case True
    then show ?thesis by simp
  next
    case False
    then have "length fr \<ge> 1" by (cases fr) simp_all
    then show ?thesis using False Suc[of "butlast fr"]
      by (auto simp: butlast_conv_take)
  qed
qed

subsection \<open>A retry starts afresh\<close>

lemma phase_a_adjust_counters:
  "phase_a_adjust A rms w L (s\<lparr>pause_count := pa, phrase_count := ph\<rparr>) b =
     map_sum id (\<lambda>s. s\<lparr>pause_count := pa, phrase_count := ph\<rparr>) (phase_a_adjust A rms w L s b)"
  by (simp add: phase_a_adjust_def split: sum.splits)

lemma phase_a_step_counters:
  "phase_a_step A rms w L (s\<lparr>pause_count := pa, phrase_count := ph\<rparr>) b r =
     (phase_a_step A rms w L s b r)\<lparr>pause_count := pa, phrase_count := ph\<rparr>"
  by (simp add: phase_a_step_def)

lemma phase_a_counters:
  "phase_a A rms w t L (s\<lparr>pause_count := pa, phrase_count := ph\<rparr>) =
     map_sum (map_prod id (\<lambda>s. s\<lparr>pause_count := pa, phrase_count := ph\<rparr>))
             (\<lambda>s. s\<lparr>pause_count := pa, phrase_count := ph\<rparr>) (phase_a A rms w t L s)"
proof (rule phase_a_induct[where P = "\<lambda>s r. phase_a A rms w t L (s\<lparr>pause_count := pa, phrase_count := ph\<rparr>) =
     map_sum (map_prod id (\<lambda>s. s\<lparr>pause_count := pa, phrase_count := ph\<rparr>))
             (\<lambda>s. s\<lparr>pause_count := pa, phrase_count := ph\<rparr>) r"], goal_cases)
  case (1 s)
  then show ?case by (subst phase_a.simps) (simp add: Let_def)
next
  case (2 s)
  then show ?case by (simp add: phase_a_Nil)
next
  case (3 s r)
  then show ?case by (simp add: phase_a_Cons)
next
  case (4 s b r)
  then show ?case by (simp add: phase_a_Cons phase_a_step_def)
next
  case (5 s b r e)
  let ?s' = "s\<lparr>pause_count := pa, phrase_count := ph\<rparr>"
  have "phase_a A rms w t L ?s' =
        (case phase_a_adjust A rms w L (phase_a_step A rms w L ?s' b r) b of
           Inl e \<Rightarrow> Inl (e, phase_a_step A rms w L ?s' b r)
         | Inr s' \<Rightarrow> phase_a A rms w t L s')"
    using 5(1-4) by (subst phase_a_unfold[where b = b and r = r]) simp_all
  then show ?case using 5(5) by (simp add: phase_a_step_counters phase_a_adjust_counters)
next
  case (6 s b r s')
  let ?s' = "s\<lparr>pause_count := pa, phrase_count := ph\<rparr>"
  have "phase_a A rms w t L ?s' =
        (case phase_a_adjust A rms w L (phase_a_step A rms w L ?s' b r) b of
           Inl e \<Rightarrow> Inl (e, phase_a_step A rms w L ?s' b r)
         | Inr s' \<Rightarrow> phase_a A rms w t L s')"
    using 6(1-4) by (subst phase_a_unfold[where b = b and r = r]) simp_all
  then show ?case using 6(5,6) by (simp add: phase_a_step_counters phase_a_adjust_counters)
qed

lemma listen_loop_fresh:
  "listen_result source L (listen_loop A n rms w t L (s\<lparr>frames := f, pause_count := pa, phrase_count := ph\<rparr>))
   = listen_result source L (listen_loop A n rms w t L s)"
proof (cases n)
  case 0
  then show ?thesis by simp
next
  case (Suc m)
  let ?u = "\<lambda>s::listen_state. s\<lparr>pause_count := pa, phrase_count := ph\<rparr>"
  have r: "s\<lparr>frames := f, pause_count := pa, phrase_count := ph\<rparr>\<lparr>frames := []\<rparr>
             = (s\<lparr>frames := []\<rparr>)\<lparr>pause_count := pa, phrase_count := ph\<rparr>"
    by (cases s) simp
  have a: "phase_a A rms w t L (s\<lparr>frames := f, pause_count := pa, phrase_count := ph\<rparr>\<lparr>frames := []\<rparr>)
        = map_sum (map_prod id ?u) ?u (phase_a A rms w t L (s\<lparr>frames := []\<rparr>))"
    using phase_a_counters[where s = "s\<lparr>frames := []\<rparr>" and pa = pa and ph = ph and rms = rms
            and w = w and t = t and L = L and A = A]
    by (simp only: r)
  show ?thesis
  proof (cases "phase_a A rms w t L (s\<lparr>frames := []\<rparr>)")
    case (Inl es)
    obtain e s' where es: "es = (e, s')" by (cases es)
    show ?thesis using Inl es a Suc by (simp add: listen_result_def)
  next
    case (Inr s1)
    show ?thesis using Inr a Suc by (simp add: Let_def)
  qed
qed

subsection \<open>From the retry loop to \<open>listen\<close>\<close>

lemma buffer_counts_Inr:
  assumes "buffer_counts A self source = Inr L"
  shows "seconds_per_buffer A source = Inr (spb L)"
    "spb L \<noteq> 0"
    "pause_buffer_count L = \<lceil>fdiv A (pause_threshold self) (spb L)\<rceil>"
    "phrase_buffer_count L = \<lceil>fdiv A (phrase_threshold self) (spb L)\<rceil>"
    "non_speaking_buffer_count L = \<lceil>fdiv A (non_speaking_duration self) (spb L)\<rceil>"
  using assms
  by (auto simp: buffer_counts_def split: if_splits sum.splits)

lemma spb_positive:
  assumes "monotone_arith A" and "buffer_counts A self source = Inr L"
    and "0 < CHUNK source" "0 < SAMPLE_RATE source"
  shows "0 < spb L"
proof -
  obtain chunk rate where c: "to_float A (CHUNK source) = Some chunk"
    and r: "to_float A (SAMPLE_RATE source) = Some rate"
    and s: "spb L = fdiv A (fadd A chunk 0) rate"
    using buffer_counts_Inr(1)[OF assms(2)]
    by (auto simp: seconds_per_buffer_def split: option.splits if_splits)
  have "0 < chunk" "0 < rate" using assms(1,3,4) c r by (auto simp: monotone_arith_def)
  then have "0 < fadd A chunk 0" using assms(1) by (simp add: monotone_arith_def)
  then have "0 \<le> fdiv A (fadd A chunk 0) rate"
    using assms(1) \<open>0 < rate\<close> by (simp add: monotone_arith_def)
  then show ?thesis using s buffer_counts_Inr(2)[OF assms(2)] by simp
qed

lemma buffer_counts_order:
  assumes "monotone_arith A" and "buffer_counts A self source = Inr L" and "0 < spb L"
    and "pause_threshold self \<ge> non_speaking_duration self" and "non_speaking_duration self \<ge> 0"
  shows "0 \<le> non_speaking_buffer_count L" "non_speaking_buffer_count L \<le> pause_buffer_count L"
proof -
  have "0 \<le> fdiv A (non_speaking_duration self) (spb L)"
    using assms(1,3,5) by (simp add: monotone_arith_def)
  then show "0 \<le> non_speaking_buffer_count L"
    using buffer_counts_Inr(5)[OF assms(2)] by (simp add: ceiling_le_iff le_ceiling_iff)
  have "fdiv A (non_speaking_duration self) (spb L) \<le> fdiv A (pause_threshold self) (spb L)"
    using assms(1,3,4) by (simp add: monotone_arith_def)
  then show "non_speaking_buffer_count L \<le> pause_buffer_count L"
    using buffer_counts_Inr(3,5)[OF assms(2)] by (simp add: ceiling_mono)
qed

lemma listen_emitted:
  assumes "pause_threshold self \<ge> non_speaking_duration self" "non_speaking_duration self \<ge> 0"
    and "buffer_counts A self source = Inr L"
    and "listen_loop A n rms (SAMPLE_WIDTH source) timeout L (listen_init self source) = Some (Inr s)"
  shows "listen A n rms self source timeout =
           Some (obtain_frame_data source L s, recognizer s, source\<lparr>stream := strm s\<rparr>)"
  using assms by (simp add: listen_def listen_result_def)

subsection \<open>The clock\<close>

lemma clock_Suc: "clock A dt (Suc j) = fadd A (clock A dt j) dt"
  by (simp add: clock_def)

lemma buffers_within_le: "buffers_within A dt x t n \<le> n"
  by (induction n arbitrary: t) simp_all

lemma buffers_within_clock:
  "buffers_within A dt x (clock A dt i) n = k \<Longrightarrow>
   (\<forall>j<k. \<not> x < clock A dt (i + Suc j)) \<and> (k < n \<longrightarrow> x < clock A dt (i + Suc k))"
proof (induction n arbitrary: i k)
  case 0
  then show ?case by simp
next
  case (Suc n)
  show ?case
  proof (cases "fadd A (clock A dt i) dt > x")
    case True
    then show ?thesis using Suc.prems by (simp add: clock_Suc)
  next
    case False
    then obtain k' where k: "k = Suc k'" "buffers_within A dt x (clock A dt (Suc i)) n = k'"
      using Suc.prems by (auto simp: clock_Suc)
    have ih: "(\<forall>j<k'. \<not> x < clock A dt (Suc i + Suc j))
              \<and> (k' < n \<longrightarrow> x < clock A dt (Suc i + Suc k'))"
      using Suc.IH[OF k(2)] .
    have "\<not> x < clock A dt (i + Suc j)" if "j < k" for j
    proof (cases j)
      case 0
      then show ?thesis using False by (simp add: clock_Suc)
    next
      case (Suc j')
      then show ?thesis using ih that k(1) by simp
    qed
    then show ?thesis using ih k(1) by simp
  qed
qed

lemma buffers_upto_0 [simp]: "buffers_upto A dt opt t 0 = 0"
  by (simp add: buffers_upto_def split: option.splits)

lemma buffers_upto_Suc:
  "buffers_upto A dt opt t (Suc n) =
     (if exceeds (fadd A t dt) opt then 0 else Suc (buffers_upto A dt opt (fadd A t dt) n))"
  by (simp add: buffers_upto_def exceeds_def split: option.splits)

subsection \<open>The loop of \<open>record\<close>\<close>

lemma skip_offset_fields [simp]:
  "r_stream (skip_offset A dt off s) = r_stream s"
  "r_frames (skip_offset A dt off s) = r_frames s"
  "r_elapsed_time (skip_offset A dt off s) = r_elapsed_time s"
  by (simp_all add: skip_offset_def Let_def)

lemma skip_offset_reached: "r_offset_reached s \<Longrightarrow> skip_offset A dt off s = s"
  by (simp add: skip_offset_def)

lemma record_loop_Nil:
  "r_stream s = [] \<Longrightarrow> record_loop A dt d off s = (skip_offset A dt off s)\<lparr>r_stream := []\<rparr>"
  by (subst record_loop.simps) (simp add: Let_def read_Nil)

lemma record_loop_Cons:
  "r_stream s = b # r \<Longrightarrow>
   record_loop A dt d off s =
     (let s1 = skip_offset A dt off s
      in if b = [] then s1\<lparr>r_stream := r\<rparr>
         else if r_offset_reached s1 \<or> \<not> truthy off then
           (if exceeds (fadd A (r_elapsed_time s1) dt) d
            then s1\<lparr>r_stream := r, r_elapsed_time := fadd A (r_elapsed_time s1) dt\<rparr>
            else record_loop A dt d off
                   (s1\<lparr>r_stream := r, r_elapsed_time := fadd A (r_elapsed_time s1) dt,
                       r_frames := r_frames s1 @ b\<rparr>))
         else record_loop A dt d off (s1\<lparr>r_stream := r\<rparr>))"
  by (subst record_loop.simps) (simp add: Let_def read_Cons)

text \<open>Once the offset is passed (or when there is none), the loop appends the buffers that
  its clock lets through.\<close>

lemma record_loop_recording:
  assumes "r_offset_reached s \<or> \<not> truthy off"
  shows "r_frames (record_loop A dt d off s) =
           r_frames s @ concat (take (buffers_upto A dt d (r_elapsed_time s)
                                        (length (takeWhile (\<lambda>b. b \<noteq> []) (r_stream s))))
                                     (takeWhile (\<lambda>b. b \<noteq> []) (r_stream s)))"
  using assms
proof (induction "r_stream s" arbitrary: s)
  case Nil
  then show ?case by (simp add: record_loop_Nil)
next
  case (Cons b r)
  have st: "r_stream s = b # r" using Cons.hyps(2) by simp
  have sk: "skip_offset A dt off s = s"
    using Cons.prems by (auto simp: skip_offset_def)
  show ?case
  proof (cases "b = []")
    case True
    then show ?thesis using st by (simp add: record_loop_Cons)
  next
    case False
    show ?thesis
    proof (cases "exceeds (fadd A (r_elapsed_time s) dt) d")
      case True
      then show ?thesis using st sk False Cons.prems
        by (simp add: record_loop_Cons Let_def buffers_upto_Suc)
    next
      case ne: False
      let ?s' = "s\<lparr>r_stream := r, r_elapsed_time := fadd A (r_elapsed_time s) dt,
                       r_frames := r_frames s @ b\<rparr>"
      have eq: "record_loop A dt d off s = record_loop A dt d off ?s'"
        using st sk False ne Cons.prems by (simp add: record_loop_Cons Let_def)
      have ih: "r_frames (record_loop A dt d off ?s') =
           r_frames ?s' @ concat (take (buffers_upto A dt d (r_elapsed_time ?s')
                                          (length (takeWhile (\<lambda>b. b \<noteq> []) (r_stream ?s'))))
                                       (takeWhile (\<lambda>b. b \<noteq> []) (r_stream ?s')))"
        using Cons.hyps(1)[of ?s'] Cons.prems by simp
      show ?thesis using eq ih st False ne by (simp add: buffers_upto_Suc)
    qed
  qed
qed

lemma record_loop_reached:
  "r_offset_reached (skip_offset A dt off s) \<Longrightarrow>
   record_loop A dt d off s = record_loop A dt d off (skip_offset A dt off s)"
  by (subst record_loop.simps, subst (2) record_loop.simps) (simp add: skip_offset_reached)

text \<open>Before that, it drops the buffers that the clock of the offset lets through.\<close>

lemma record_loop_skipping:
  assumes "off = Some v" and "v \<noteq> 0" and "\<not> r_offset_reached s"
  shows "r_frames (record_loop A dt d off s) =
           r_frames s @
           concat (take (buffers_upto A dt d (r_elapsed_time s)
                     (length (drop (buffers_within A dt v (r_offset_time s)
                                      (length (takeWhile (\<lambda>b. b \<noteq> []) (r_stream s))))
                                   (takeWhile (\<lambda>b. b \<noteq> []) (r_stream s)))))
                   (drop (buffers_within A dt v (r_offset_time s)
                            (length (takeWhile (\<lambda>b. b \<noteq> []) (r_stream s))))
                         (takeWhile (\<lambda>b. b \<noteq> []) (r_stream s))))"
  using assms(3)
proof (induction "r_stream s" arbitrary: s)
  case Nil
  then show ?case by (simp add: record_loop_Nil)
next
  case (Cons b r)
  have st: "r_stream s = b # r" using Cons.hyps(2) by simp
  have tr: "truthy off" using assms(1,2) by (simp add: truthy_def)
  show ?case
  proof (cases "fadd A (r_offset_time s) dt > v")
    case True
    let ?s1 = "s\<lparr>r_offset_time := fadd A (r_offset_time s) dt, r_offset_reached := True\<rparr>"
    have sk: "skip_offset A dt off s = ?s1"
      using True tr Cons.prems assms(1) by (simp add: skip_offset_def Let_def)
    have "record_loop A dt d off s = record_loop A dt d off ?s1"
      using record_loop_reached[of A dt off s d] sk by simp
    moreover have "r_frames (record_loop A dt d off ?s1) =
           r_frames ?s1 @ concat (take (buffers_upto A dt d (r_elapsed_time ?s1)
                                          (length (takeWhile (\<lambda>b. b \<noteq> []) (r_stream ?s1))))
                                       (takeWhile (\<lambda>b. b \<noteq> []) (r_stream ?s1)))"
      by (intro record_loop_recording) simp
    moreover have "buffers_within A dt v (r_offset_time s)
                     (length (takeWhile (\<lambda>b. b \<noteq> []) (r_stream s))) = 0"
      using True st by (cases "b = []") simp_all
    ultimately show ?thesis by simp
  next
    case False
    let ?s1 = "s\<lparr>r_offset_time := fadd A (r_offset_time s) dt\<rparr>"
    have sk: "skip_offset A dt off s = ?s1"
      using False tr Cons.prems assms(1) by (simp add: skip_offset_def Let_def)
    show ?thesis
    proof (cases "b = []")
      case True
      then show ?thesis using st sk by (simp add: record_loop_Cons Let_def)
    next
      case ne: False
      let ?s' = "?s1\<lparr>r_stream := r\<rparr>"
      have eq: "record_loop A dt d off s = record_loop A dt d off ?s'"
        using st sk ne tr Cons.prems by (simp add: record_loop_Cons Let_def)
      have "r_frames (record_loop A dt d off ?s') =
           r_frames ?s' @
           concat (take (buffers_upto A dt d (r_elapsed_time ?s')
                     (length (drop (buffers_within A dt v (r_offset_time ?s')
                                      (length (takeWhile (\<lambda>b. b \<noteq> []) (r_stream ?s'))))
                                   (takeWhile (\<lambda>b. b \<noteq> []) (r_stream ?s')))))
                   (drop (buffers_within A dt v (r_offset_time ?s')
                            (length (takeWhile (\<lambda>b. b \<noteq> []) (r_stream ?s'))))
                         (takeWhile (\<lambda>b. b \<noteq> []) (r_stream ?s'))))"
        using Cons.hyps(1)[of ?s'] Cons.hyps(2) Cons.prems by simp
      then show ?thesis using eq st ne False by simp
    qed
  qed
qed

subsection \<open>The loop of \<open>adjust_for_ambient_noise\<close>\<close>


lemma length_read_n [simp]: "length (read_n k s) = k"
  by (induction k arbitrary: s) simp_all

lemma adjust_energy_Some:
  "fpow A (dynamic_energy_adjustment_damping self) dt = Some damping \<Longrightarrow>
   adjust_energy A self dt e =
     Inr (self\<lparr>energy_threshold :=
                 weighted_average A damping (dynamic_energy_ratio self) (energy_threshold self) e\<rparr>)"
  by (simp add: adjust_energy_def weighted_average_def Let_def)


lemma adjust_loop_running:
  assumes "fpow A (dynamic_energy_adjustment_damping self) dt = Some damping"
    and "buffers_within A dt duration elapsed n = n"
  shows "adjust_loop A n rms w dt duration elapsed self s = None"
  using assms
proof (induction n arbitrary: elapsed self s)
  case 0
  then show ?case by simp
next
  case (Suc n)
  have ne: "\<not> fadd A elapsed dt > duration" using Suc.prems(2) by (auto split: if_splits)
  then have k: "buffers_within A dt duration (fadd A elapsed dt) n = n"
    using Suc.prems(2) by simp
  let ?self' = "self\<lparr>energy_threshold :=
                 weighted_average A damping (dynamic_energy_ratio self) (energy_threshold self)
                   (rms (fst (read s)) w)\<rparr>"
  have "fpow A (dynamic_energy_adjustment_damping ?self') dt = Some damping"
    using Suc.prems(1) by simp
  from Suc.IH[OF this k] show ?case using ne Suc.prems(1)
    by (simp add: Let_def adjust_energy_Some)
qed


lemma foldl_weighted_fields [simp]:
  "dynamic_energy_ratio (foldl (\<lambda>self b. self\<lparr>energy_threshold :=
            weighted_average A damping (dynamic_energy_ratio self) (energy_threshold self) (rms b w)\<rparr>)
        self bs) = dynamic_energy_ratio self"
  "dynamic_energy_adjustment_damping (foldl (\<lambda>self b. self\<lparr>energy_threshold :=
            weighted_average A damping (dynamic_energy_ratio self) (energy_threshold self) (rms b w)\<rparr>)
        self bs) = dynamic_energy_adjustment_damping self"
  by (induction bs arbitrary: self) simp_all

text \<open>Without rounding, and with a damping between 0 and 1, the update does not leave the
  interval between the threshold and its target.\<close>

lemma exact_sel [simp]:
  "to_float exact i = Some (real_of_int i)" "fadd exact x y = x + y" "fsub exact x y = x - y"
  "fmul exact x y = x * y" "fdiv exact x y = x / y" "fpow exact x y = exact_pow x y"
  by (simp_all add: exact_def)



lemma exact_monotone: "monotone_arith exact"
  by (simp add: monotone_arith_def divide_right_mono)

subsection \<open>Evaluating the concrete sources\<close>

lemma rms_width1_simps [simp]:
  "rms_width1 [] w = 0" "rms_width1 [x] w = nat \<bar>sint x\<bar>"
  by (simp_all add: rms_width1_def)

lemma one_hertz_counts:
  "buffer_counts exact self (one_hertz bs) =
     Inr \<lparr>spb = 1, pause_buffer_count = \<lceil>pause_threshold self\<rceil>,
          phrase_buffer_count = \<lceil>phrase_threshold self\<rceil>,
          non_speaking_buffer_count = \<lceil>non_speaking_duration self\<rceil>\<rparr>"
  by (simp add: buffer_counts_def seconds_per_buffer_def one_hertz_def)

lemma one_hertz_sel [simp]:
  "stream (one_hertz bs) = bs" "SAMPLE_WIDTH (one_hertz bs) = 1" "SAMPLE_RATE (one_hertz bs) = 1"
  "CHUNK (one_hertz bs) = 1" "one_hertz bs\<lparr>stream := bs'\<rparr> = one_hertz bs'"
  by (simp_all add: one_hertz_def)

lemma Recognizer_init_sel [simp]:
  "energy_threshold Recognizer_init = 600" "dynamic_energy_threshold Recognizer_init = False"
  "dynamic_energy_adjustment_damping Recognizer_init = 15 / 100"
  "dynamic_energy_ratio Recognizer_init = 2"
  "pause_threshold Recognizer_init = 1 / 2" "phrase_threshold Recognizer_init = 1 / 2"
  "non_speaking_duration Recognizer_init = 1 / 5"
  by (simp_all add: Recognizer_init_def)

lemma one_second_sel [simp]:
  "energy_threshold one_second = 10" "dynamic_energy_threshold one_second = False"
  "dynamic_energy_adjustment_damping one_second = 15 / 100"
  "dynamic_energy_ratio one_second = 2"
  "pause_threshold one_second = 1" "phrase_threshold one_second = 1"
  "non_speaking_duration one_second = 1"
  by (simp_all add: one_second_def)

text \<open>The buffer counts at 1 Hz.\<close>

lemma one_second_counts:
  "buffer_counts exact one_second (one_hertz bs)
     = Inr \<lparr>spb = 1, pause_buffer_count = 1, phrase_buffer_count = 1, non_speaking_buffer_count = 1\<rparr>"
  by (simp add: one_hertz_counts)

text \<open>A clean phrase: one buffer of speech starts it, one more follows, then silence.\<close>

lemma clean_loop: "listen_loop exact (Suc 0) rms_width1 1 None
       \<lparr>spb = 1, pause_buffer_count = 1, phrase_buffer_count = 1, non_speaking_buffer_count = 1\<rparr>
       (listen_init one_second (one_hertz [[100], [100], [0], [0], [0]]))
     = Some (Inr \<lparr>recognizer = one_second, strm = [[0]], elapsed_time = 4,
                  frames = [[100], [100], [0], [0]], pause_count = 2, phrase_count = 1\<rparr>)"
  by (simp add: listen_init_def phase_a_Cons phase_b_Cons exceeds_def)

text \<open>A short blip: one buffer of speech, then silence; with a phrase threshold of two
  seconds the phrase is too short.\<close>

lemma blip_phase_a:
  "phase_a exact rms_width1 1 (Some (7 / 2))
     \<lparr>spb = 1, pause_buffer_count = 1, phrase_buffer_count = 2, non_speaking_buffer_count = 1\<rparr>
     (listen_init (one_second\<lparr>phrase_threshold := 2\<rparr>) (one_hertz [[100], [0], [0]])\<lparr>frames := []\<rparr>)
   = Inr \<lparr>recognizer = one_second\<lparr>phrase_threshold := 2\<rparr>, strm = [[0], [0]], elapsed_time = 1,
          frames = [[100]], pause_count = 0, phrase_count = 0\<rparr>"
  by (simp add: listen_init_def phase_a_Cons exceeds_def)

lemma blip_phase_b:
  "\<lparr>recognizer = one_second\<lparr>phrase_threshold := 2\<rparr>, strm = [], elapsed_time = 3,
          frames = [[100], [0], [0]], pause_count = 2, phrase_count = 2\<rparr>
   = phase_b exact rms_width1 1
     \<lparr>spb = 1, pause_buffer_count = 1, phrase_buffer_count = 2, non_speaking_buffer_count = 1\<rparr>
     (\<lparr>recognizer = one_second\<lparr>phrase_threshold := 2\<rparr>, strm = [[0], [0]], elapsed_time = 1,
          frames = [[100]], pause_count = 0, phrase_count = 0\<rparr>\<lparr>pause_count := 0, phrase_count := 0\<rparr>)"
  by (simp add: phase_b_Cons)

lemma blip_counts:
  "buffer_counts exact (one_second\<lparr>phrase_threshold := 2\<rparr>) (one_hertz bs)
     = Inr \<lparr>spb = 1, pause_buffer_count = 1, phrase_buffer_count = 2, non_speaking_buffer_count = 1\<rparr>"
  by (simp add: one_hertz_counts)

section \<open>The claims\<close>

text \<open>
  C10. A timeout of \<open>0\<close> passed to \<open>listen\<close> is treated as no timeout: the call behaves
  exactly as with \<open>None\<close> and never raises \<open>WaitTimeoutError\<close>, because the guard tests the
  truthiness of the value. \<open>record\<close> treats a duration of \<open>0\<close> and an offset of \<open>0\<close> in the
  same way.
\<close>

theorem listen_timeout_zero:
  "listen A n rms self source (Some 0) = listen A n rms self source None
   \<and> listen A n rms self source (Some 0) \<noteq> Some (Inl WaitTimeoutError, self', source')
   \<and> record_audio A self source (Some 0) offset = record_audio A self source None offset
   \<and> record_audio A self source duration (Some 0) = record_audio A self source duration None"
proof -
  have f: "\<not> truthy (Some 0)" "\<not> truthy None" by (simp_all add: truthy_def)
  have a: "listen A n rms self source (Some 0) = listen A n rms self source None"
    by (simp add: listen_def listen_loop_falsy[OF f] cong: sum.case_cong)
  have b: "listen A n rms self source (Some 0) \<noteq> Some (Inl WaitTimeoutError, self', source')"
    using listen_loop_no_raise[OF f(1), where A = A and n = n and rms = rms]
    by (auto simp: listen_def listen_result_def obtain_frame_data_def AudioData_init_def
          dest: pop_frames_error buffer_counts_error split: option.splits sum.splits if_splits)
  have c: "record_audio A self source (Some 0) offset = record_audio A self source None offset"
    by (simp add: record_audio_def record_loop_duration_falsy[OF f] cong: sum.case_cong)
  have d: "record_audio A self source duration (Some 0) = record_audio A self source duration None"
    by (simp add: record_audio_def record_loop_offset_falsy[OF f] cong: sum.case_cong)
  show ?thesis using a b c d by simp
qed

text \<open>
  C1 (the code does not do this). The claim: on a stream that ends, \<open>listen\<close> terminates,
  the end of the stream met while waiting for speech ends the retry loop, and the audio
  captured so far is returned even when it is shorter than \<open>phrase_buffer_count\<close>.
  The code: the \<open>break\<close> at the end of the stream leaves the inner loop only. With no
  timeout, \<open>listen\<close> is still running after any number \<open>n\<close> of iterations of the retry loop
  on the exhausted stream (default configuration), and on a stream that ends after a phrase
  shorter than \<open>phrase_buffer_count\<close>: the short capture is never returned.
\<close>

theorem listen_exhausted_stream_never_returns:
  "listen exact n rms Recognizer_init
     \<lparr>SAMPLE_RATE = 16000, SAMPLE_WIDTH = 2, CHUNK = 1024, stream = []\<rparr> None = None
   \<and> listen exact n rms_width1 (one_second\<lparr>phrase_threshold := 2\<rparr>) (one_hertz [[100], [0], [0]]) None
       = None"
proof -
  have a: "listen exact n rms Recognizer_init
     \<lparr>SAMPLE_RATE = 16000, SAMPLE_WIDTH = 2, CHUNK = 1024, stream = []\<rparr> None = None"
    by (simp add: listen_def listen_result_def Recognizer_init_def buffer_counts_def
       seconds_per_buffer_def listen_loop_exhausted truthy_def listen_init_def)
  have "listen_loop exact n rms_width1 1 None
     \<lparr>spb = 1, pause_buffer_count = 1, phrase_buffer_count = 2, non_speaking_buffer_count = 1\<rparr>
     (listen_init (one_second\<lparr>phrase_threshold := 2\<rparr>) (one_hertz [[100], [0], [0]])) = None"
  proof (cases n)
    case 0
    then show ?thesis by simp
  next
    case (Suc m)
    then show ?thesis
      by (simp add: listen_init_def phase_a_Cons phase_b_Cons exceeds_def listen_loop_exhausted
          truthy_def)
  qed
  then have b: "listen exact n rms_width1 (one_second\<lparr>phrase_threshold := 2\<rparr>)
                  (one_hertz [[100], [0], [0]]) None = None"
    by (simp add: listen_def listen_result_def blip_counts)
  show ?thesis using a b by blast
qed



text \<open>
  C9 (as stated it fails). The claim: \<open>listen\<close> and \<open>adjust_for_ambient_noise\<close> reject, before
  any audio is consumed, every configuration violating
  \<open>pause_threshold \<ge> non_speaking_duration \<ge> 0\<close> or \<open>phrase_threshold \<ge> 0\<close>. The assertion
  at entry tests the first condition only: a negative \<open>phrase_threshold\<close> is accepted, audio
  is read and audio data is returned.
\<close>

theorem negative_phrase_threshold_accepted:
  "phrase_threshold (Recognizer_init\<lparr>phrase_threshold := - 1\<rparr>) < 0
   \<and> pause_threshold (Recognizer_init\<lparr>phrase_threshold := - 1\<rparr>)
       \<ge> non_speaking_duration (Recognizer_init\<lparr>phrase_threshold := - 1\<rparr>)
   \<and> non_speaking_duration (Recognizer_init\<lparr>phrase_threshold := - 1\<rparr>) \<ge> 0
   \<and> listen exact 1 rms_width1 (Recognizer_init\<lparr>phrase_threshold := - 1\<rparr>) (one_hertz [[0]]) None
       = Some (Inr \<lparr>frame_data = [0], sample_rate = 1, sample_width = 1\<rparr>,
               Recognizer_init\<lparr>phrase_threshold := - 1\<rparr>, one_hertz [])"
  by (simp add: listen_def listen_result_def one_hertz_counts listen_init_def phase_a_Cons
        phase_a_Nil phase_b_Nil exceeds_def obtain_frame_data_def AudioData_init_def)

text \<open>
  C9, amended: every configuration violating \<open>pause_threshold \<ge> non_speaking_duration \<ge> 0\<close>
  makes \<open>listen\<close> and \<open>adjust_for_ambient_noise\<close> fail with an assertion error at entry,
  before anything is read from the source (the source and the recognizer are returned as
  they were).
\<close>

theorem invalid_config_rejected:
  assumes "\<not> (pause_threshold self \<ge> non_speaking_duration self \<and> non_speaking_duration self \<ge> 0)"
  shows "listen A n rms self source timeout = Some (Inl AssertionError, self, source)
       \<and> adjust_for_ambient_noise A n rms self source duration = Some (Some AssertionError, self, source)"
  using assms by (simp add: listen_def adjust_for_ambient_noise_def)

theorem invalid_config_rejected_witness:
  "\<not> (pause_threshold (Recognizer_init\<lparr>non_speaking_duration := 1\<rparr>)
          \<ge> non_speaking_duration (Recognizer_init\<lparr>non_speaking_duration := 1\<rparr>)
        \<and> non_speaking_duration (Recognizer_init\<lparr>non_speaking_duration := 1\<rparr>) \<ge> 0)
   \<and> listen exact 0 rms_width1 (Recognizer_init\<lparr>non_speaking_duration := 1\<rparr>) (one_hertz [[0]]) None
       = Some (Inl AssertionError, Recognizer_init\<lparr>non_speaking_duration := 1\<rparr>, one_hertz [[0]])"
  using invalid_config_rejected[where self = "Recognizer_init\<lparr>non_speaking_duration := 1\<rparr>"
          and A = exact and n = 0 and rms = rms_width1 and source = "one_hertz [[0]]"
          and timeout = None and duration = 1]
  by (simp add: Recognizer_init_def)

text \<open>
  C6. When \<open>listen\<close> emits, the trimming step removes exactly
  \<open>k = max 0 (pause_count - non_speaking_buffer_count)\<close> buffers from the tail of the ring
  (there are that many, so \<open>pop\<close> never fails) and the audio data is the concatenation of
  the rest in arrival order. If \<open>pause_count \<le> non_speaking_buffer_count\<close> nothing is
  removed; if \<open>non_speaking_buffer_count = 0\<close> all \<open>pause_count\<close> trailing buffers are
  removed; every removed buffer is silence (its energy is not above the threshold).
  This is stated of a valid configuration, a source whose \<open>CHUNK\<close>, rate and width are
  positive, and every arithmetic that keeps the sign and the order.
\<close>

theorem listen_trimming:
  assumes "pause_threshold self \<ge> non_speaking_duration self" "non_speaking_duration self \<ge> 0"
    and "buffer_counts A self source = Inr L"
    and "listen_loop A n rms (SAMPLE_WIDTH source) timeout L (listen_init self source) = Some (Inr s)"
    and "0 < CHUNK source" "0 < SAMPLE_RATE source" "0 < SAMPLE_WIDTH source"
    and "k = nat (max 0 (pause_count s - non_speaking_buffer_count L))"
    and "monotone_arith A"
  shows "k \<le> length (frames s)
    \<and> listen A n rms self source timeout =
        Some (Inr \<lparr>frame_data = concat (take (length (frames s) - k) (frames s)),
                   sample_rate = SAMPLE_RATE source, sample_width = SAMPLE_WIDTH source\<rparr>,
              recognizer s, source\<lparr>stream := strm s\<rparr>)
    \<and> (pause_count s \<le> non_speaking_buffer_count L \<longrightarrow> k = 0)
    \<and> (non_speaking_buffer_count L = 0 \<longrightarrow> k = nat (pause_count s))
    \<and> (\<forall>b\<in>set (drop (length (frames s) - k) (frames s)).
          \<not> real (rms b (SAMPLE_WIDTH source)) > energy_threshold (recognizer s))"
proof -
  obtain pre where e: "int (length (frames s)) = pre + phrase_count s + pause_count s"
    "0 \<le> pre" "0 \<le> pause_count s" "0 \<le> phrase_count s"
    and sil: "\<forall>b\<in>set (take (nat (pause_count s)) (rev (frames s))).
              \<not> real (rms b (SAMPLE_WIDTH source)) > energy_threshold (recognizer s)"
    using listen_loop_emitted[OF assms(4)] by blast
  have ns: "0 \<le> non_speaking_buffer_count L"
    using buffer_counts_order(1)[OF assms(9,3) spb_positive[OF assms(9,3,5,6)] assms(1,2)] .
  have k: "k = nat (pause_count s - non_speaking_buffer_count L)"
    using assms(8) by simp
  have kp: "k \<le> nat (pause_count s)" using k ns by linarith
  have le: "k \<le> length (frames s)" using e kp by linarith
  have "obtain_frame_data source L s =
          Inr \<lparr>frame_data = concat (take (length (frames s) - k) (frames s)),
                   sample_rate = SAMPLE_RATE source, sample_width = SAMPLE_WIDTH source\<rparr>"
    using le assms(6,7) by (simp add: obtain_frame_data_def pop_frames_take k AudioData_init_def)
  then have l: "listen A n rms self source timeout =
        Some (Inr \<lparr>frame_data = concat (take (length (frames s) - k) (frames s)),
                   sample_rate = SAMPLE_RATE source, sample_width = SAMPLE_WIDTH source\<rparr>,
              recognizer s, source\<lparr>stream := strm s\<rparr>)"
    using listen_emitted[OF assms(1-4)] by simp
  have "drop (length (frames s) - k) (frames s) = rev (take k (rev (frames s)))"
    by (simp add: take_rev)
  moreover have "set (take k (rev (frames s))) \<subseteq> set (take (nat (pause_count s)) (rev (frames s)))"
    using kp by (rule set_take_subset_set_take)
  ultimately have d: "\<forall>b\<in>set (drop (length (frames s) - k) (frames s)).
          \<not> real (rms b (SAMPLE_WIDTH source)) > energy_threshold (recognizer s)"
    using sil by auto
  show ?thesis using le l d k e(3) by simp
qed

theorem listen_trimming_witness:
  "listen_loop exact 1 rms_width1 1 None
       \<lparr>spb = 1, pause_buffer_count = 1, phrase_buffer_count = 1, non_speaking_buffer_count = 1\<rparr>
       (listen_init one_second (one_hertz [[100], [100], [0], [0], [0]]))
     = Some (Inr \<lparr>recognizer = one_second, strm = [[0]], elapsed_time = 4,
                  frames = [[100], [100], [0], [0]], pause_count = 2, phrase_count = 1\<rparr>)
   \<and> listen exact 1 rms_width1 one_second (one_hertz [[100], [100], [0], [0], [0]]) None
     = Some (Inr \<lparr>frame_data = [100, 100, 0], sample_rate = 1, sample_width = 1\<rparr>,
             one_second, one_hertz [[0]])"
  using listen_trimming[where self = one_second
      and source = "one_hertz [[100], [100], [0], [0], [0]]" and A = exact
      and L = "\<lparr>spb = 1, pause_buffer_count = 1, phrase_buffer_count = 1, non_speaking_buffer_count = 1\<rparr>"
      and n = 1 and rms = rms_width1 and timeout = None
      and s = "\<lparr>recognizer = one_second, strm = [[0]], elapsed_time = 4,
                  frames = [[100], [100], [0], [0]], pause_count = 2, phrase_count = 1\<rparr>"
      and k = 1]
  by (simp add: one_hertz_counts clean_loop exact_monotone del: listen_loop.simps)

text \<open>
  C2 (as stated it fails). The claim: every audio data emitted by \<open>listen\<close> holds at least
  \<open>phrase_buffer_count + non_speaking_buffer_count\<close> buffers. When the stream ends during
  the phrase, fewer than \<open>non_speaking_buffer_count\<close> buffers of silence follow the speech:
  here two buffers are emitted where the claim asks for three.
\<close>

theorem emitted_at_end_of_stream_is_shorter:
  "pause_threshold (one_second\<lparr>pause_threshold := 2, non_speaking_duration := 2\<rparr>)
     \<ge> non_speaking_duration (one_second\<lparr>pause_threshold := 2, non_speaking_duration := 2\<rparr>)
   \<and> non_speaking_duration (one_second\<lparr>pause_threshold := 2, non_speaking_duration := 2\<rparr>) \<ge> 0
   \<and> phrase_threshold (one_second\<lparr>pause_threshold := 2, non_speaking_duration := 2\<rparr>) \<ge> 0
   \<and> buffer_counts exact (one_second\<lparr>pause_threshold := 2, non_speaking_duration := 2\<rparr>)
         (one_hertz [[100], [100]])
       = Inr \<lparr>spb = 1, pause_buffer_count = 2, phrase_buffer_count = 1,
              non_speaking_buffer_count = 2\<rparr>
   \<and> listen exact 1 rms_width1 (one_second\<lparr>pause_threshold := 2, non_speaking_duration := 2\<rparr>)
         (one_hertz [[100], [100]]) None
       = Some (Inr \<lparr>frame_data = [100, 100], sample_rate = 1, sample_width = 1\<rparr>,
               one_second\<lparr>pause_threshold := 2, non_speaking_duration := 2\<rparr>, one_hertz [])
   \<and> length [100, 100 :: 8 word] < (1 + 2) * (1 * 1)"
  by (simp add: listen_def listen_result_def one_hertz_counts listen_init_def phase_a_Cons
        phase_b_Cons phase_b_Nil exceeds_def obtain_frame_data_def AudioData_init_def)

text \<open>
  C2, amended: for a valid configuration, a source whose buffers all have the same
  length \<open>m\<close>, and every arithmetic that keeps the sign and the order, the audio data
  emitted by \<open>listen\<close> holds \<open>k\<close> buffers, where
  \<open>k = pre + body + min pause_count non_speaking_buffer_count\<close>, with
  \<open>pre \<le> non_speaking_buffer_count\<close> buffers kept before the phrase and
  \<open>body = phrase_count - pause_count \<ge> phrase_buffer_count\<close> (the final \<open>phrase_count\<close> of
  the state). So \<open>k\<close> is at most \<open>pre + body + non_speaking_buffer_count\<close>, and it is at
  least \<open>phrase_buffer_count + non_speaking_buffer_count\<close> when the phrase was ended by
  silence (\<open>pause_count > pause_buffer_count\<close>).
\<close>

theorem emitted_buffer_bounds:
  assumes "pause_threshold self \<ge> non_speaking_duration self" "non_speaking_duration self \<ge> 0"
    and "phrase_threshold self \<ge> 0"
    and "0 < CHUNK source" "0 < SAMPLE_RATE source"
    and "buffer_counts A self source = Inr L"
    and "listen_loop A n rms (SAMPLE_WIDTH source) timeout L (listen_init self source) = Some (Inr s)"
    and "listen A n rms self source timeout = Some (Inr a, self', source')"
    and "\<forall>b\<in>set (stream source). length b = m"
    and "monotone_arith A"
  shows "\<exists>k pre. length (frame_data a) = k * m
      \<and> int k = pre + phrase_count s + min (pause_count s) (non_speaking_buffer_count L)
      \<and> 0 \<le> pre \<and> pre \<le> non_speaking_buffer_count L
      \<and> 0 \<le> phrase_buffer_count L \<and> phrase_buffer_count L \<le> phrase_count s
      \<and> 0 \<le> pause_count s
      \<and> (pause_buffer_count L < pause_count s
            \<longrightarrow> phrase_buffer_count L + non_speaking_buffer_count L \<le> int k)
      \<and> int k \<le> pre + phrase_count s + non_speaking_buffer_count L"
proof -
  have pos: "0 < spb L" using spb_positive[OF assms(10,6,4,5)] .
  have ns: "0 \<le> non_speaking_buffer_count L" "non_speaking_buffer_count L \<le> pause_buffer_count L"
    using buffer_counts_order[OF assms(10,6) pos assms(1,2)] .
  have "0 \<le> fdiv A (phrase_threshold self) (spb L)"
    using pos assms(3,10) by (simp add: monotone_arith_def)
  then have pb: "0 \<le> phrase_buffer_count L"
    using buffer_counts_Inr(4)[OF assms(6)] by (simp add: le_ceiling_iff)
  obtain pre where e: "int (length (frames s)) = pre + phrase_count s + pause_count s"
    "0 \<le> pre" "pre \<le> max 0 (non_speaking_buffer_count L)" "0 \<le> pause_count s"
    "phrase_buffer_count L \<le> phrase_count s"
    and sub: "set (frames s) \<subseteq> set (strm (listen_init self source))"
    using listen_loop_emitted[OF assms(7)] by blast
  define j where "j = nat (pause_count s - non_speaking_buffer_count L)"
  define fr where "fr = take (length (frames s) - j) (frames s)"
  have j: "j \<le> length (frames s)" using e ns pb j_def by linarith
  have "obtain_frame_data source L s = Inr a"
    using listen_emitted[OF assms(1,2,6,7)] assms(8) by simp
  then have fd: "frame_data a = concat fr"
    using j by (auto simp: obtain_frame_data_def pop_frames_take j_def fr_def AudioData_init_def
        split: if_splits)
  have "set fr \<subseteq> set (stream source)"
    using sub set_take_subset[of "length (frames s) - j" "frames s"]
    by (auto simp: fr_def listen_init_def)
  then have len: "length (frame_data a) = length fr * m"
    using assms(9) fd length_concat_const[of fr m] by auto
  have k: "int (length fr) = pre + phrase_count s + min (pause_count s) (non_speaking_buffer_count L)"
    using e j ns pb by (simp add: fr_def j_def)
  show ?thesis
    using len k e ns pb
    by (intro exI[of _ "length fr"] exI[of _ pre]) auto
qed

theorem emitted_buffer_bounds_witness:
  "listen exact 1 rms_width1 one_second (one_hertz [[100], [100], [0], [0], [0]]) None
     = Some (Inr \<lparr>frame_data = [100, 100, 0], sample_rate = 1, sample_width = 1\<rparr>,
             one_second, one_hertz [[0]])
   \<and> (\<exists>k. length [100, 100, 0 :: 8 word] = k * 1 \<and> (1::int) + 1 \<le> int k)"
  using emitted_buffer_bounds[where self = one_second
      and source = "one_hertz [[100], [100], [0], [0], [0]]" and A = exact
      and L = "\<lparr>spb = 1, pause_buffer_count = 1, phrase_buffer_count = 1, non_speaking_buffer_count = 1\<rparr>"
      and n = 1 and rms = rms_width1 and timeout = None
      and s = "\<lparr>recognizer = one_second, strm = [[0]], elapsed_time = 4,
                  frames = [[100], [100], [0], [0]], pause_count = 2, phrase_count = 1\<rparr>"
      and a = "\<lparr>frame_data = [100, 100, 0], sample_rate = 1, sample_width = 1\<rparr>"
      and self' = one_second and source' = "one_hertz [[0]]" and m = 1]
  by (simp add: one_hertz_counts clean_loop listen_def listen_result_def obtain_frame_data_def
        AudioData_init_def numeral_3_eq_3 exact_monotone del: listen_loop.simps)

text \<open>
  C5. After the second loop has ended, \<open>listen\<close> emits the captured ring if and only if
  \<open>effective_phrase = phrase_count - pause_count\<close> is at least \<open>phrase_buffer_count\<close>, the
  ceiling of the quotient of \<open>phrase_threshold\<close> by \<open>seconds_per_buffer\<close> as the code computes
  it. \<open>listen\<close> returns what the retry loop returns from the state of line 185. Take a pass
  of the retry loop, entered in the state \<open>s\<close> (the first pass in the state of line 185),
  whose first loop ends in \<open>after_a\<close> without raising and whose second loop ends in
  \<open>after_b\<close>.
  \<^item> If \<open>effective_phrase \<ge> phrase_buffer_count\<close>, \<open>listen\<close> returns after this pass: the audio
    data are the ring of \<open>after_b\<close> in arrival order, less its last
    \<open>k = max 0 (pause_count - non_speaking_buffer_count)\<close> buffers, and the recognizer and
    the stream are those of \<open>after_b\<close>.
  \<^item> Otherwise nothing is returned after this pass, and \<open>listen\<close> goes on as from
    \<open>after_b\<close> with an empty ring and both counters at zero: the ring and the counters
    are discarded.
\<close>

theorem listen_emission_test:
  assumes "pause_threshold self \<ge> non_speaking_duration self" "non_speaking_duration self \<ge> 0"
    and "buffer_counts A self source = Inr L"
    and "0 < CHUNK source" "0 < SAMPLE_RATE source" "0 < SAMPLE_WIDTH source"
    and "monotone_arith A"
    and "w = SAMPLE_WIDTH source"
    and "phase_a A rms w timeout L (s\<lparr>frames := []\<rparr>) = Inr after_a"
    and "after_b = phase_b A rms w L (after_a\<lparr>pause_count := 0, phrase_count := 0\<rparr>)"
    and "effective_phrase = phrase_count after_b - pause_count after_b"
    and "k = nat (max 0 (pause_count after_b - non_speaking_buffer_count L))"
    and "ring = \<lparr>frame_data = concat (take (length (frames after_b) - k) (frames after_b)),
                 sample_rate = SAMPLE_RATE source, sample_width = SAMPLE_WIDTH source\<rparr>"
  shows "seconds_per_buffer A source = Inr (spb L)
    \<and> phrase_buffer_count L = \<lceil>fdiv A (phrase_threshold self) (spb L)\<rceil>
    \<and> listen A m rms self source timeout =
        listen_result source L (listen_loop A m rms w timeout L (listen_init self source))
    \<and> (effective_phrase \<ge> phrase_buffer_count L \<longrightarrow>
          listen_result source L (listen_loop A (Suc n) rms w timeout L s)
            = Some (Inr ring, recognizer after_b, source\<lparr>stream := strm after_b\<rparr>)
          \<and> (s = listen_init self source \<longrightarrow>
                listen A (Suc n) rms self source timeout
                  = Some (Inr ring, recognizer after_b, source\<lparr>stream := strm after_b\<rparr>)))
    \<and> (effective_phrase < phrase_buffer_count L \<longrightarrow>
          listen_result source L (listen_loop A (Suc n) rms w timeout L s)
            = listen_result source L
                (listen_loop A n rms w timeout L
                   (after_b\<lparr>frames := [], pause_count := 0, phrase_count := 0\<rparr>))
          \<and> (s = listen_init self source \<longrightarrow>
                listen A (Suc n) rms self source timeout
                  = listen_result source L
                      (listen_loop A n rms w timeout L
                         (after_b\<lparr>frames := [], pause_count := 0, phrase_count := 0\<rparr>))))"
proof -
  have c1: "seconds_per_buffer A source = Inr (spb L)"
    and c2: "phrase_buffer_count L = \<lceil>fdiv A (phrase_threshold self) (spb L)\<rceil>"
    using buffer_counts_Inr(1,4)[OF assms(3)] by simp_all
  have c3: "listen A m rms self source timeout =
        listen_result source L (listen_loop A m rms w timeout L (listen_init self source))" for m
    using assms(1,2,3,8) by (simp add: listen_def)
  define s3 where "s3 = after_b\<lparr>phrase_count := effective_phrase\<rparr>"
  have step: "listen_loop A (Suc n) rms w timeout L s =
                (if effective_phrase \<ge> phrase_buffer_count L then Some (Inr s3)
                 else listen_loop A n rms w timeout L s3)"
    using assms(9-11) by (simp add: Let_def s3_def)
  have emit: "listen_result source L (listen_loop A (Suc n) rms w timeout L s)
            = Some (Inr ring, recognizer after_b, source\<lparr>stream := strm after_b\<rparr>)"
    if ge: "effective_phrase \<ge> phrase_buffer_count L"
  proof -
    have l: "listen_loop A (Suc n) rms w timeout L s = Some (Inr s3)"
      using step ge by simp
    obtain pre where e: "int (length (frames s3)) = pre + phrase_count s3 + pause_count s3"
      "0 \<le> pre" "0 \<le> pause_count s3" "0 \<le> phrase_count s3"
      using listen_loop_emitted[OF l] by blast
    have ns: "0 \<le> non_speaking_buffer_count L"
      using buffer_counts_order(1)[OF assms(7,3) spb_positive[OF assms(7,3,4,5)] assms(1,2)] .
    have f: "frames s3 = frames after_b" "pause_count s3 = pause_count after_b"
      "recognizer s3 = recognizer after_b" "strm s3 = strm after_b"
      by (simp_all add: s3_def)
    have k: "k = nat (pause_count after_b - non_speaking_buffer_count L)"
      using assms(12) by simp
    have "k \<le> nat (pause_count after_b)" using k ns by linarith
    moreover have "int (length (frames after_b)) = pre + phrase_count s3 + pause_count after_b"
      using e(1) f(1,2) by simp
    ultimately have le: "k \<le> length (frames after_b)" using e(2,4) by linarith
    have "obtain_frame_data source L s3 = Inr ring"
      using le assms(5,6,13) f
      by (simp add: obtain_frame_data_def pop_frames_take k AudioData_init_def)
    then show ?thesis using l f by (simp add: listen_result_def)
  qed
  have retry: "listen_result source L (listen_loop A (Suc n) rms w timeout L s)
            = listen_result source L
                (listen_loop A n rms w timeout L
                   (after_b\<lparr>frames := [], pause_count := 0, phrase_count := 0\<rparr>))"
    if lt: "effective_phrase < phrase_buffer_count L"
  proof -
    have "s3\<lparr>frames := [], pause_count := 0, phrase_count := 0\<rparr>
          = after_b\<lparr>frames := [], pause_count := 0, phrase_count := 0\<rparr>"
      by (cases after_b) (simp add: s3_def)
    then have "listen_result source L (listen_loop A n rms w timeout L s3)
          = listen_result source L
                (listen_loop A n rms w timeout L
                   (after_b\<lparr>frames := [], pause_count := 0, phrase_count := 0\<rparr>))"
      using listen_loop_fresh[where s = s3 and f = "[]" and pa = 0 and ph = 0 and source = source
          and L = L and n = n and rms = rms and w = w and t = timeout and A = A]
      by simp
    then show ?thesis using step lt by simp
  qed
  have emit1: "listen A (Suc n) rms self source timeout
                  = Some (Inr ring, recognizer after_b, source\<lparr>stream := strm after_b\<rparr>)"
    if "effective_phrase \<ge> phrase_buffer_count L" "s = listen_init self source"
    using emit[OF that(1)] c3[of "Suc n"] that(2) by (simp del: listen_loop.simps)
  have retry1: "listen A (Suc n) rms self source timeout
                  = listen_result source L
                      (listen_loop A n rms w timeout L
                         (after_b\<lparr>frames := [], pause_count := 0, phrase_count := 0\<rparr>))"
    if "effective_phrase < phrase_buffer_count L" "s = listen_init self source"
    using retry[OF that(1)] c3[of "Suc n"] that(2) by (simp del: listen_loop.simps)
  show ?thesis using c1 c2 c3[of m] emit emit1 retry retry1 by blast
qed

theorem listen_emission_test_witness:
  "listen exact (Suc 0) rms_width1 one_second (one_hertz [[100], [100], [0], [0], [0]]) None
     = Some (Inr \<lparr>frame_data = [100, 100, 0], sample_rate = 1, sample_width = 1\<rparr>,
             one_second, one_hertz [[0]])
   \<and> listen exact (Suc (Suc 0)) rms_width1 (one_second\<lparr>phrase_threshold := 2\<rparr>)
       (one_hertz [[100], [0], [0]]) (Some (7 / 2))
     = Some (Inl WaitTimeoutError, one_second\<lparr>phrase_threshold := 2\<rparr>, one_hertz [])"
proof -
  let ?L1 = "\<lparr>spb = 1, pause_buffer_count = 1, phrase_buffer_count = 1,
              non_speaking_buffer_count = 1\<rparr>"
  let ?a1 = "\<lparr>recognizer = one_second, strm = [[100], [0], [0], [0]], elapsed_time = 1,
              frames = [[100]], pause_count = 0, phrase_count = 0\<rparr>"
  let ?b1 = "\<lparr>recognizer = one_second, strm = [[0]], elapsed_time = 4,
              frames = [[100], [100], [0], [0]], pause_count = 2, phrase_count = 3\<rparr>"
  have v1: "pause_threshold one_second \<ge> non_speaking_duration one_second"
    "non_speaking_duration one_second \<ge> 0" by simp_all
  have p1: "0 < CHUNK (one_hertz [[100], [100], [0], [0], [0]])"
    "0 < SAMPLE_RATE (one_hertz [[100], [100], [0], [0], [0]])"
    "0 < SAMPLE_WIDTH (one_hertz [[100], [100], [0], [0], [0]])" by simp_all
  have w1: "(1::int) = SAMPLE_WIDTH (one_hertz [[100], [100], [0], [0], [0]])" by simp
  have a1: "phase_a exact rms_width1 1 None ?L1
              (listen_init one_second (one_hertz [[100], [100], [0], [0], [0]])\<lparr>frames := []\<rparr>)
            = Inr ?a1"
    by (simp add: listen_init_def phase_a_Cons exceeds_def)
  have b1: "?b1 = phase_b exact rms_width1 1 ?L1 (?a1\<lparr>pause_count := 0, phrase_count := 0\<rparr>)"
    by (simp add: phase_b_Cons)
  have e1: "(1::int) = phrase_count ?b1 - pause_count ?b1" by simp
  have k1: "(1::nat) = nat (max 0 (pause_count ?b1 - non_speaking_buffer_count ?L1))" by simp
  have r1: "\<lparr>frame_data = [100, 100, 0], sample_rate = 1, sample_width = 1\<rparr>
            = \<lparr>frame_data = concat (take (length (frames ?b1) - 1) (frames ?b1)),
               sample_rate = SAMPLE_RATE (one_hertz [[100], [100], [0], [0], [0]]),
               sample_width = SAMPLE_WIDTH (one_hertz [[100], [100], [0], [0], [0]])\<rparr>"
    by (simp add: numeral_3_eq_3)
  note t1 = listen_emission_test[where n = 0 and m = 0 and s = "listen_init one_second
      (one_hertz [[100], [100], [0], [0], [0]])", OF v1 one_second_counts p1 exact_monotone w1 a1 b1 e1 k1 r1]
  have first: "listen exact (Suc 0) rms_width1 one_second (one_hertz [[100], [100], [0], [0], [0]]) None
     = Some (Inr \<lparr>frame_data = [100, 100, 0], sample_rate = 1, sample_width = 1\<rparr>,
             one_second, one_hertz [[0]])"
    using t1[THEN conjunct2, THEN conjunct2, THEN conjunct2, THEN conjunct1] by simp
  let ?L2 = "\<lparr>spb = 1, pause_buffer_count = 1, phrase_buffer_count = 2,
              non_speaking_buffer_count = 1\<rparr>"
  let ?a2 = "\<lparr>recognizer = one_second\<lparr>phrase_threshold := 2\<rparr>, strm = [[0], [0]],
              elapsed_time = 1, frames = [[100]], pause_count = 0, phrase_count = 0\<rparr>"
  let ?b2 = "\<lparr>recognizer = one_second\<lparr>phrase_threshold := 2\<rparr>, strm = [], elapsed_time = 3,
              frames = [[100], [0], [0]], pause_count = 2, phrase_count = 2\<rparr>"
  have v2: "pause_threshold (one_second\<lparr>phrase_threshold := 2\<rparr>)
              \<ge> non_speaking_duration (one_second\<lparr>phrase_threshold := 2\<rparr>)"
    "non_speaking_duration (one_second\<lparr>phrase_threshold := 2\<rparr>) \<ge> 0" by simp_all
  have p2: "0 < CHUNK (one_hertz [[100], [0], [0]])" "0 < SAMPLE_RATE (one_hertz [[100], [0], [0]])"
    "0 < SAMPLE_WIDTH (one_hertz [[100], [0], [0]])" by simp_all
  have w2: "(1::int) = SAMPLE_WIDTH (one_hertz [[100], [0], [0]])" by simp
  have e2: "(0::int) = phrase_count ?b2 - pause_count ?b2" by simp
  have k2: "(1::nat) = nat (max 0 (pause_count ?b2 - non_speaking_buffer_count ?L2))" by simp
  have r2: "\<lparr>frame_data = [100, 0], sample_rate = 1, sample_width = 1\<rparr>
            = \<lparr>frame_data = concat (take (length (frames ?b2) - 1) (frames ?b2)),
               sample_rate = SAMPLE_RATE (one_hertz [[100], [0], [0]]),
               sample_width = SAMPLE_WIDTH (one_hertz [[100], [0], [0]])\<rparr>"
    by (simp add: numeral_3_eq_3)
  note t2 = listen_emission_test[where n = "Suc 0" and m = 0
      and s = "listen_init (one_second\<lparr>phrase_threshold := 2\<rparr>) (one_hertz [[100], [0], [0]])",
      OF v2 blip_counts p2 exact_monotone w2 blip_phase_a blip_phase_b e2 k2 r2]
  have "listen_loop exact (Suc 0) rms_width1 1 (Some (7 / 2)) ?L2
          (?b2\<lparr>frames := [], pause_count := 0, phrase_count := 0\<rparr>)
        = Some (Inl (WaitTimeoutError,
            \<lparr>recognizer = one_second\<lparr>phrase_threshold := 2\<rparr>, strm = [], elapsed_time = 4,
              frames = [], pause_count = 0, phrase_count = 0\<rparr>))"
    by (simp add: phase_a_Nil exceeds_def)
  then have second: "listen exact (Suc (Suc 0)) rms_width1 (one_second\<lparr>phrase_threshold := 2\<rparr>)
       (one_hertz [[100], [0], [0]]) (Some (7 / 2))
     = Some (Inl WaitTimeoutError, one_second\<lparr>phrase_threshold := 2\<rparr>, one_hertz [])"
    using t2[THEN conjunct2, THEN conjunct2, THEN conjunct2, THEN conjunct2]
    by (simp add: listen_result_def del: listen_loop.simps)
  show ?thesis using first second by blast
qed

text \<open>
  C4 (the code does not do this). The claim: \<open>listen\<close> raises \<open>WaitTimeoutError\<close> if and only
  if timeout is set and the cumulative elapsed time exceeds it while speech is awaited; the
  docstring of \<open>listen\<close> says the same, and lets only a timeout of \<open>None\<close> wait
  indefinitely. The test of line 192 is \<open>timeout and elapsed_time > timeout\<close>, and a timeout
  of \<open>0\<close> is falsy: with a timeout of \<open>0\<close> the elapsed time exceeds the timeout at the first
  check, before any speech, and yet \<open>listen\<close> does not raise: it goes on and returns the
  phrase that follows.
\<close>

theorem zero_timeout_never_expires:
  "buffer_counts exact one_second (one_hertz [[0], [100], [100], [0], [0]])
     = Inr \<lparr>spb = 1, pause_buffer_count = 1, phrase_buffer_count = 1, non_speaking_buffer_count = 1\<rparr>
   \<and> 0 < fadd exact (elapsed_time (listen_init one_second (one_hertz [[0], [100], [100], [0], [0]])))
             (spb \<lparr>spb = 1, pause_buffer_count = 1, phrase_buffer_count = 1,
                    non_speaking_buffer_count = 1\<rparr>)
   \<and> listen exact 1 rms_width1 one_second (one_hertz [[0], [100], [100], [0], [0]]) (Some 0)
     = Some (Inr \<lparr>frame_data = [100, 100, 0], sample_rate = 1, sample_width = 1\<rparr>,
             one_second, one_hertz [])"
  by (simp add: listen_def listen_result_def one_hertz_counts listen_init_def phase_a_Cons
        phase_b_Cons exceeds_def obtain_frame_data_def AudioData_init_def)

text \<open>
  C3 (as stated it fails). The claim: the captured duration rounds up to whole buffers, so
  that \<open>record\<close> covers at least \<open>duration\<close> seconds when the stream is long enough. The
  loop leaves as soon as the elapsed time, counting the buffer just read, exceeds
  \<open>duration\<close>, and that buffer is not written: of three seconds of audio, a duration of
  1.5 seconds captures one second.
\<close>

theorem record_stops_short_of_duration:
  "record_audio exact Recognizer_init (one_hertz [[1], [2], [3]]) (Some (3 / 2)) None
     = (Inr \<lparr>frame_data = [1], sample_rate = 1, sample_width = 1\<rparr>, Recognizer_init,
        one_hertz [[3]])
   \<and> real (length [1 :: 8 word]) / real_of_int (1 * 1) < 3 / 2
   \<and> 3 / 2 \<le> real (length [[1], [2], [3 :: 8 word]])
                * (real_of_int (CHUNK (one_hertz [[1], [2], [3]]))
                   / real_of_int (SAMPLE_RATE (one_hertz [[1], [2], [3]])))"
  by (simp add: record_audio_def seconds_per_buffer_def record_loop_Cons skip_offset_def
        truthy_def exceeds_def AudioData_init_def)

text \<open>
  C3, amended. \<open>record\<close> keeps two clocks, each the sum, in the arithmetic of the code, of
  one \<open>seconds_per_buffer\<close> per buffer (\<open>clock A dt j\<close> after \<open>j\<close> buffers). It skips the
  leading buffers for which the clock of the offset, counting the buffer about to be read,
  does not exceed \<open>offset\<close>; then it appends the buffers for which the clock of the elapsed
  time, counting the buffer just read, does not exceed \<open>duration\<close>, until the stream ends
  (every buffer, when \<open>duration\<close> is \<open>None\<close> or \<open>0\<close>; none is skipped when \<open>offset\<close> is).
  The buffer with which the clock first exceeds \<open>duration\<close> is read and not appended: the
  capture is buffer-granular, and the clock of the code is at most \<open>duration\<close> at every
  buffer appended.
\<close>

theorem record_whole_buffers:
  assumes "seconds_per_buffer A source = Inr dt"
    and "0 < SAMPLE_RATE source" "0 < SAMPLE_WIDTH source"
    and "audio = takeWhile (\<lambda>b. b \<noteq> []) (stream source)"
    and "skipped = (case offset of None \<Rightarrow> 0
                    | Some v \<Rightarrow> if v = 0 then 0 else buffers_within A dt v 0 (length audio))"
    and "rest = drop skipped audio"
    and "k = (case duration of None \<Rightarrow> length rest
              | Some u \<Rightarrow> if u = 0 then length rest else buffers_within A dt u 0 (length rest))"
  shows "fst (record_audio A self source duration offset) =
           Inr \<lparr>frame_data = concat (take k rest),
                sample_rate = SAMPLE_RATE source, sample_width = SAMPLE_WIDTH source\<rparr>
    \<and> skipped \<le> length audio \<and> k \<le> length rest
    \<and> (\<forall>v. offset = Some v \<and> v \<noteq> 0 \<longrightarrow>
          (\<forall>j < skipped. \<not> v < clock A dt (Suc j))
          \<and> (skipped < length audio \<longrightarrow> v < clock A dt (Suc skipped)))
    \<and> (\<forall>u. duration = Some u \<and> u \<noteq> 0 \<longrightarrow>
          (\<forall>j < k. \<not> u < clock A dt (Suc j))
          \<and> (k < length rest \<longrightarrow> u < clock A dt (Suc k)))"
proof -
  let ?s0 = "\<lparr>r_frames = [], r_stream = stream source, r_elapsed_time = 0,
              r_offset_time = 0, r_offset_reached = False\<rparr>"
  have k: "k = buffers_upto A dt duration 0 (length rest)"
    using assms(7) by (simp add: buffers_upto_def)
  have fr: "r_frames (record_loop A dt duration offset ?s0) = concat (take k rest)"
  proof (cases "truthy offset")
    case False
    then have "skipped = 0" using assms(5) by (auto simp: truthy_def split: option.splits)
    then show ?thesis
      using record_loop_recording[where s = ?s0 and off = offset and A = A and dt = dt
          and d = duration] False assms(4,6) k
      by simp
  next
    case True
    then obtain v where v: "offset = Some v" "v \<noteq> 0"
      by (auto simp: truthy_def split: option.splits)
    then have "skipped = buffers_within A dt v 0 (length audio)" using assms(5) by simp
    then show ?thesis
      using record_loop_skipping[where s = ?s0 and off = offset and A = A and dt = dt
          and d = duration, OF v] assms(4,6) k
      by simp
  qed
  have a: "fst (record_audio A self source duration offset) =
           Inr \<lparr>frame_data = concat (take k rest),
                sample_rate = SAMPLE_RATE source, sample_width = SAMPLE_WIDTH source\<rparr>"
    using assms(1,2,3) fr by (simp add: record_audio_def AudioData_init_def Let_def)
  have c0: "clock A dt 0 = 0" by (simp add: clock_def)
  have b: "(\<forall>j < skipped. \<not> v < clock A dt (Suc j))
          \<and> (skipped < length audio \<longrightarrow> v < clock A dt (Suc skipped))"
    if "offset = Some v" "v \<noteq> 0" for v
    using buffers_within_clock[where A = A and dt = dt and x = v and i = 0
        and n = "length audio" and k = skipped] that assms(5) c0
    by simp
  have c: "(\<forall>j < k. \<not> u < clock A dt (Suc j))
          \<and> (k < length rest \<longrightarrow> u < clock A dt (Suc k))"
    if "duration = Some u" "u \<noteq> 0" for u
    using buffers_within_clock[where A = A and dt = dt and x = u and i = 0
        and n = "length rest" and k = k] that assms(7) c0
    by simp
  have le: "skipped \<le> length audio" "k \<le> length rest"
    using assms(5,7) by (auto simp: buffers_within_le split: option.splits)
  show ?thesis using a le b c by blast
qed

theorem record_whole_buffers_witness:
  "fst (record_audio exact Recognizer_init (one_hertz [[1], [2], [3], [4]]) (Some 2) (Some 1))
     = Inr \<lparr>frame_data = [2, 3], sample_rate = 1, sample_width = 1\<rparr>
   \<and> \<not> (1::real) < clock exact 1 (Suc 0) \<and> (1::real) < clock exact 1 (Suc (Suc 0))
   \<and> \<not> (2::real) < clock exact 1 (Suc (Suc 0)) \<and> (2::real) < clock exact 1 (Suc (Suc (Suc 0)))"
proof -
  have h1: "seconds_per_buffer exact (one_hertz [[1], [2], [3], [4]]) = Inr 1"
    by (simp add: seconds_per_buffer_def)
  have h2: "0 < SAMPLE_RATE (one_hertz [[1], [2], [3], [4]])"
    "0 < SAMPLE_WIDTH (one_hertz [[1], [2], [3], [4]])" by simp_all
  have h4: "[[1], [2], [3], [4]]
            = takeWhile (\<lambda>b. b \<noteq> []) (stream (one_hertz [[1], [2], [3], [4 :: 8 word]]))"
    by simp
  have w1: "buffers_within exact 1 1 0 (Suc (Suc (Suc (Suc 0)))) = Suc 0"
    by simp
  have l1: "length [[1], [2], [3], [4 :: 8 word]] = Suc (Suc (Suc (Suc 0)))" by simp
  have h5: "Suc 0 = (case Some (1::real) of None \<Rightarrow> 0
                     | Some v \<Rightarrow> if v = 0 then 0
                         else buffers_within exact 1 v 0 (length [[1], [2], [3], [4 :: 8 word]]))"
    by (simp only: l1 w1 option.case) simp
  have h6: "[[2], [3], [4]] = drop (Suc 0) [[1], [2], [3], [4 :: 8 word]]" by simp
  have w2: "buffers_within exact 1 2 0 (Suc (Suc (Suc 0))) = Suc (Suc 0)"
    by simp
  have l2: "length [[2], [3], [4 :: 8 word]] = Suc (Suc (Suc 0))" by simp
  have h7: "Suc (Suc 0) = (case Some (2::real) of None \<Rightarrow> length [[2], [3], [4 :: 8 word]]
                     | Some u \<Rightarrow> if u = 0 then length [[2], [3], [4 :: 8 word]]
                         else buffers_within exact 1 u 0 (length [[2], [3], [4 :: 8 word]]))"
    by (simp only: l2 w2 option.case) simp
  note t = record_whole_buffers[where self = Recognizer_init and duration = "Some 2"
      and offset = "Some 1", OF h1 h2 h4 h5 h6 h7]
  have a: "fst (record_audio exact Recognizer_init (one_hertz [[1], [2], [3], [4]]) (Some 2) (Some 1))
     = Inr \<lparr>frame_data = [2, 3], sample_rate = 1, sample_width = 1\<rparr>"
    using t[THEN conjunct1] by simp
  have b: "\<not> (1::real) < clock exact 1 (Suc 0) \<and> (1::real) < clock exact 1 (Suc (Suc 0))"
    using t[THEN conjunct2, THEN conjunct2, THEN conjunct2, THEN conjunct1] by (simp only: l1) simp
  have c: "\<not> (2::real) < clock exact 1 (Suc (Suc 0))
           \<and> (2::real) < clock exact 1 (Suc (Suc (Suc 0)))"
    using t[THEN conjunct2, THEN conjunct2, THEN conjunct2, THEN conjunct2] by (simp only: l2) simp
  show ?thesis using a b c by blast
qed




end
